theory Spec2Isabelle
  imports Main
begin

section \<open>Conventions of the embedding\<close>

text \<open>
  The four allocators of \<^verbatim>\<open>File_System.cpp\<close> are embedded function by function.
  \<^item> A C++ \<^verbatim>\<open>int\<close> is an \<open>int\<close> and its arithmetic is exact: the model agrees
    with the program as long as every value is a value of a 32-bit \<^verbatim>\<open>int\<close>, as
    the sizes, offsets and block numbers of the simulated device are. A theorem about
    every size states the range it needs. The sum \<^verbatim>\<open>size+1\<close> that a read of the
    ContiguousFileSystem returns is computed from the argument alone, so its range is
    checked in the model: above \<open>INT_MAX\<close> the addition is undefined
    (\<open>Int_overflow\<close>). Where the source compares an \<^verbatim>\<open>int\<close> with a
    \<^verbatim>\<open>size_t\<close>, the conversion is written out (\<open>to_size_t\<close>).
  \<^item> \<^verbatim>\<open>bitset<N>\<close> is a \<open>bool list\<close> of length \<open>N\<close>; the constant member
    \<^verbatim>\<open>memory_size\<close> is that length.
  \<^item> Every operation that the C++ standard leaves undefined or that throws
    (an exception is never caught in the program) is a \<open>fault\<close>, returned as \<open>Inl\<close>.
  \<^item> The messages on \<^verbatim>\<open>cerr\<close> that end an operation early are a \<open>status\<close>.
  \<^item> A loop that may run forever is a \<^theory_text>\<open>partial_function\<close> in the option
    monad: \<open>None\<close> means that the loop never returns.
\<close>

datatype fault =
    Bitset_out_of_range int   \<comment> \<open>\<^verbatim>\<open>bitset::set\<close> / \<^verbatim>\<open>bitset::reset\<close> outside \<open>[0, N)\<close>: throws \<^verbatim>\<open>std::out_of_range\<close>\<close>
  | Bitset_index_ub int       \<comment> \<open>\<^verbatim>\<open>bitset::operator[]\<close> outside \<open>[0, N)\<close>: undefined behaviour\<close>
  | List_front_empty          \<comment> \<open>\<^verbatim>\<open>list::front\<close> of an empty list: undefined behaviour\<close>
  | Vector_index_ub int       \<comment> \<open>\<^verbatim>\<open>vector::operator[]\<close> outside the vector: undefined behaviour\<close>
  | Null_deref                \<comment> \<open>member access through \<^verbatim>\<open>nullptr\<close>\<close>
  | Bad_pointer               \<comment> \<open>member access through a pointer to no block object\<close>
  | Int_overflow              \<comment> \<open>signed \<^verbatim>\<open>int\<close> addition with a result above \<open>INT_MAX\<close>: undefined behaviour\<close>

datatype status = Done | DuplicateName | NotFound | OutOfSpace

type_synonym bitset = "bool list"

definition to_size_t :: "int \<Rightarrow> int" where
  "to_size_t x = x mod 2 ^ 64"

definition INT_MAX :: int where
  "INT_MAX = 2147483647"

text \<open>The remainder of C++ (\<^verbatim>\<open>a % b\<close>) truncates towards zero.\<close>

definition c_rem :: "int \<Rightarrow> int \<Rightarrow> int" where
  "c_rem a b = sgn a * (\<bar>a\<bar> mod \<bar>b\<bar>)"

definition bs_test :: "bitset \<Rightarrow> int \<Rightarrow> fault + bool" where
  "bs_test m pos =
     (if 0 \<le> pos \<and> pos < int (length m) then Inr (m ! nat pos)
      else Inl (Bitset_index_ub pos))"

definition bs_set :: "bitset \<Rightarrow> int \<Rightarrow> fault + bitset" where
  "bs_set m pos =
     (if 0 \<le> pos \<and> pos < int (length m) then Inr (m[nat pos := True])
      else Inl (Bitset_out_of_range pos))"

definition bs_reset :: "bitset \<Rightarrow> int \<Rightarrow> fault + bitset" where
  "bs_reset m pos =
     (if 0 \<le> pos \<and> pos < int (length m) then Inr (m[nat pos := False])
      else Inl (Bitset_out_of_range pos))"

text \<open>\<^verbatim>\<open>for(int i = 0; i < n; i++) memory_map.set(i + base);\<close>\<close>

function set_loop :: "bitset \<Rightarrow> int \<Rightarrow> int \<Rightarrow> int \<Rightarrow> fault + bitset" where
  "set_loop m base n i =
     (if i < n then
        (case bs_set m (i + base) of
           Inl e \<Rightarrow> Inl e
         | Inr m' \<Rightarrow> set_loop m' base n (i + 1))
      else Inr m)"
  by pat_completeness auto
termination
  by (relation "measure (\<lambda>(m, base, n, i). nat (n - i))") auto

declare set_loop.simps [simp del]

text \<open>\<^verbatim>\<open>for(int i = 0; i < n; i++) memory_map.reset(base + i);\<close>\<close>

function reset_loop :: "bitset \<Rightarrow> int \<Rightarrow> int \<Rightarrow> int \<Rightarrow> fault + bitset" where
  "reset_loop m base n i =
     (if i < n then
        (case bs_reset m (base + i) of
           Inl e \<Rightarrow> Inl e
         | Inr m' \<Rightarrow> reset_loop m' base n (i + 1))
      else Inr m)"
  by pat_completeness auto
termination
  by (relation "measure (\<lambda>(m, base, n, i). nat (n - i))") auto

declare reset_loop.simps [simp del]

section \<open>Hole search (ContiguousFileSystem, protected members)\<close>

datatype strategy = FIRST_FIT | BEST_FIT | NEXT_FIT | WORST_FIT

text \<open>
  The inner loop of \<^verbatim>\<open>first_fit\<close> and \<^verbatim>\<open>next_fit\<close>:
  \<^verbatim>\<open>while(j < memory_size && j < i+size && memory_map[j] == 0) j++;\<close>
  with \<open>lim = i + size\<close>; the result is the final \<open>j\<close>.
\<close>

function scan_bounded :: "bitset \<Rightarrow> int \<Rightarrow> int \<Rightarrow> fault + int" where
  "scan_bounded m lim j =
     (if j < int (length m) \<and> j < lim then
        (case bs_test m j of
           Inl e \<Rightarrow> Inl e
         | Inr b \<Rightarrow> if \<not> b then scan_bounded m lim (j + 1) else Inr j)
      else Inr j)"
  by pat_completeness auto
termination
  by (relation "measure (\<lambda>(m, lim, j). nat (int (length m) - j))") auto

declare scan_bounded.simps [simp del]

text \<open>
  The inner loop of \<^verbatim>\<open>best_fit\<close> and \<^verbatim>\<open>worst_fit\<close>:
  \<^verbatim>\<open>while(j < memory_size && memory_map[j] == 0) j++;\<close>
\<close>

function scan_free :: "bitset \<Rightarrow> int \<Rightarrow> fault + int" where
  "scan_free m j =
     (if j < int (length m) then
        (case bs_test m j of
           Inl e \<Rightarrow> Inl e
         | Inr b \<Rightarrow> if \<not> b then scan_free m (j + 1) else Inr j)
      else Inr j)"
  by pat_completeness auto
termination
  by (relation "measure (\<lambda>(m, j). nat (int (length m) - j))") auto

declare scan_free.simps [simp del]

text \<open>
  \<^verbatim>\<open>first_fit\<close>: the outer loop, from its variable \<open>i\<close>. After a hole that is too
  short the source executes \<^verbatim>\<open>i += j\<close>.
\<close>

partial_function (option) first_fit_loop :: "bitset \<Rightarrow> int \<Rightarrow> int \<Rightarrow> (fault + int) option" where
  "first_fit_loop m sz i =
     (if i < int (length m) then
        (case bs_test m i of
           Inl e \<Rightarrow> Some (Inl e)
         | Inr b \<Rightarrow>
             if \<not> b then
               (case scan_bounded m (i + sz) i of
                  Inl e \<Rightarrow> Some (Inl e)
                | Inr j \<Rightarrow>
                    if j = i + sz then Some (Inr i)
                    else first_fit_loop m sz (i + j))
             else first_fit_loop m sz (i + 1))
      else Some (Inr (- 1)))"

declare first_fit_loop.simps [code]

definition first_fit :: "bitset \<Rightarrow> int \<Rightarrow> (fault + int) option" where
  "first_fit m sz = first_fit_loop m sz 0"

text \<open>
  \<^verbatim>\<open>best_fit\<close>: the outer loop, from \<open>i\<close>, \<open>min_size\<close> and \<open>ind\<close>. The update
  condition is \<^verbatim>\<open>j >= i+size && j-i <= min_size\<close>; the scan goes on at \<^verbatim>\<open>i = j\<close>.
\<close>

function best_fit_loop :: "bitset \<Rightarrow> int \<Rightarrow> int \<Rightarrow> int \<Rightarrow> int \<Rightarrow> fault + int" where
  "best_fit_loop m sz i min_size ind =
     (if i < int (length m) then
        (case bs_test m i of
           Inl e \<Rightarrow> Inl e
         | Inr b \<Rightarrow>
             if \<not> b then
               (case scan_free m i of
                  Inl e \<Rightarrow> Inl e
                | Inr j \<Rightarrow>
                    if j \<ge> i + sz \<and> j - i \<le> min_size
                    then best_fit_loop m sz j (j - i) i
                    else best_fit_loop m sz j min_size ind)
             else best_fit_loop m sz (i + 1) min_size ind)
      else Inr ind)"
  by pat_completeness auto
termination
proof (relation "measure (\<lambda>(m, sz, i, min_size, ind). nat (int (length m) - i))")
  have up: "scan_free m i = Inr j \<longrightarrow> i \<le> j" for m i j
  proof (induction m i rule: scan_free.induct)
    case (1 m k)
    show ?case
    proof (cases "k < int (length m) \<and> bs_test m k = Inr False")
      case True
      then have "scan_free m k = scan_free m (k + 1)"
        by (subst scan_free.simps) simp
      with 1 [of False] True show ?thesis by auto
    next
      case False
      then show ?thesis
        by (subst scan_free.simps) (auto split: sum.splits)
    qed
  qed
  have step: "i < j"
    if "i < int (length m)" "bs_test m i = Inr b" "\<not> b" "scan_free m i = Inr j" for m i j b
  proof -
    from that have "scan_free m (i + 1) = Inr j"
      by (subst (asm) scan_free.simps) simp
    with up [of m "i + 1" j] show ?thesis by simp
  qed
  show "wf (measure (\<lambda>(m, sz, i, min_size, ind). nat (int (length m) - i)))"
    by simp
  show "((m, sz, j, j - i, i), m, sz, i, min_size, ind)
          \<in> measure (\<lambda>(m, sz, i, min_size, ind). nat (int (length m) - i))"
    if "i < int (length m)" "bs_test m i = Inr b" "\<not> b" "scan_free m i = Inr j"
    for m sz i min_size ind b j
    using step [OF that] that(1) by simp
  show "((m, sz, j, min_size, ind), m, sz, i, min_size, ind)
          \<in> measure (\<lambda>(m, sz, i, min_size, ind). nat (int (length m) - i))"
    if "i < int (length m)" "bs_test m i = Inr b" "\<not> b" "scan_free m i = Inr j"
    for m sz i min_size ind b j
    using step [OF that] that(1) by simp
  show "((m, sz, i + 1, min_size, ind), m, sz, i, min_size, ind)
          \<in> measure (\<lambda>(m, sz, i, min_size, ind). nat (int (length m) - i))"
    if "i < int (length m)" for m sz i min_size ind
    using that by simp
qed

declare best_fit_loop.simps [simp del]

definition best_fit :: "bitset \<Rightarrow> int \<Rightarrow> fault + int" where
  "best_fit m sz = best_fit_loop m sz 0 INT_MAX (- 1)"

text \<open>
  \<^verbatim>\<open>worst_fit\<close>: the outer loop, from \<open>i\<close>, \<open>max_size\<close> and \<open>ind\<close>. The update
  condition is \<^verbatim>\<open>j >= i+size && j-i > max_size\<close>; the scan goes on at \<^verbatim>\<open>i += j\<close>.
\<close>

function worst_fit_loop :: "bitset \<Rightarrow> int \<Rightarrow> int \<Rightarrow> int \<Rightarrow> int \<Rightarrow> fault + int" where
  "worst_fit_loop m sz i max_size ind =
     (if i < int (length m) then
        (case bs_test m i of
           Inl e \<Rightarrow> Inl e
         | Inr b \<Rightarrow>
             if \<not> b then
               (case scan_free m i of
                  Inl e \<Rightarrow> Inl e
                | Inr j \<Rightarrow>
                    if j \<ge> i + sz \<and> j - i > max_size
                    then worst_fit_loop m sz (i + j) (j - i) i
                    else worst_fit_loop m sz (i + j) max_size ind)
             else worst_fit_loop m sz (i + 1) max_size ind)
      else Inr ind)"
  by pat_completeness auto
termination
proof (relation "measure (\<lambda>(m, sz, i, max_size, ind). nat (int (length m) - i))")
  have up: "scan_free m i = Inr j \<longrightarrow> i \<le> j" for m i j
  proof (induction m i rule: scan_free.induct)
    case (1 m k)
    show ?case
    proof (cases "k < int (length m) \<and> bs_test m k = Inr False")
      case True
      then have "scan_free m k = scan_free m (k + 1)"
        by (subst scan_free.simps) simp
      with 1 [of False] True show ?thesis by auto
    next
      case False
      then show ?thesis
        by (subst scan_free.simps) (auto split: sum.splits)
    qed
  qed
  have step: "i < i + j"
    if "i < int (length m)" "bs_test m i = Inr b" "\<not> b" "scan_free m i = Inr j" for m i j b
  proof -
    from that have "0 \<le> i"
      by (auto simp: bs_test_def split: if_splits)
    moreover from that have "scan_free m (i + 1) = Inr j"
      by (subst (asm) scan_free.simps) simp
    with up [of m "i + 1" j] have "i < j" by simp
    ultimately show ?thesis by simp
  qed
  show "wf (measure (\<lambda>(m, sz, i, max_size, ind). nat (int (length m) - i)))"
    by simp
  show "((m, sz, i + j, j - i, i), m, sz, i, max_size, ind)
          \<in> measure (\<lambda>(m, sz, i, max_size, ind). nat (int (length m) - i))"
    if "i < int (length m)" "bs_test m i = Inr b" "\<not> b" "scan_free m i = Inr j"
    for m sz i max_size ind b j
    using step [OF that] that(1) by simp
  show "((m, sz, i + j, max_size, ind), m, sz, i, max_size, ind)
          \<in> measure (\<lambda>(m, sz, i, max_size, ind). nat (int (length m) - i))"
    if "i < int (length m)" "bs_test m i = Inr b" "\<not> b" "scan_free m i = Inr j"
    for m sz i max_size ind b j
    using step [OF that] that(1) by simp
  show "((m, sz, i + 1, max_size, ind), m, sz, i, max_size, ind)
          \<in> measure (\<lambda>(m, sz, i, max_size, ind). nat (int (length m) - i))"
    if "i < int (length m)" for m sz i max_size ind
    using that by simp
qed

declare worst_fit_loop.simps [simp del]

definition worst_fit :: "bitset \<Rightarrow> int \<Rightarrow> fault + int" where
  "worst_fit m sz = worst_fit_loop m sz 0 0 (- 1)"

text \<open>
  \<^verbatim>\<open>next_fit\<close>: the outer loop, from \<open>i\<close> and \<open>count\<close>. The result is the returned
  index together with the value of the member \<^verbatim>\<open>start_index\<close> after the call;
  on success the source assigns \<^verbatim>\<open>start_index = (j+i)%memory_size\<close>.
\<close>

partial_function (option) next_fit_loop ::
    "bitset \<Rightarrow> int \<Rightarrow> int \<Rightarrow> int \<Rightarrow> int \<Rightarrow> (fault + int \<times> int) option" where
  "next_fit_loop m sz start_index i count =
     (if count < int (length m) then
        (case bs_test m i of
           Inl e \<Rightarrow> Some (Inl e)
         | Inr b \<Rightarrow>
             if \<not> b then
               (case scan_bounded m (i + sz) i of
                  Inl e \<Rightarrow> Some (Inl e)
                | Inr j \<Rightarrow>
                    if j = i + sz then Some (Inr (i, c_rem (j + i) (int (length m))))
                    else next_fit_loop m sz start_index (c_rem (i + j) (int (length m))) (count + j))
             else next_fit_loop m sz start_index (c_rem (i + 1) (int (length m))) (count + 1))
      else Some (Inr (- 1, start_index)))"

declare next_fit_loop.simps [code]

definition next_fit :: "bitset \<Rightarrow> int \<Rightarrow> int \<Rightarrow> (fault + int \<times> int) option" where
  "next_fit m start_index sz = next_fit_loop m sz start_index start_index 0"

section \<open>ContiguousFileSystem\<close>

text \<open>
  The class has the members \<^verbatim>\<open>memory_map\<close>, \<^verbatim>\<open>file_map\<close>, \<^verbatim>\<open>memory_size\<close>
  (the length of \<open>memory_map\<close>), \<^verbatim>\<open>start_index\<close>, \<^verbatim>\<open>strategy\<close> and
  \<^verbatim>\<open>used_memory\<close>. ModifiedContiguousFileSystem derives from it and declares a
  \<^verbatim>\<open>file_map\<close> of its own file type, which hides the inherited one in all of its
  methods; the record is therefore parametric in the file type.
\<close>

record cfile =
  filesize :: int
  start_block :: int

record 'f contiguous_fs =
  memory_map :: bitset
  file_map :: "string \<rightharpoonup> 'f"
  start_index :: int
  strategy :: strategy
  used_memory :: int

definition new_fs :: "nat \<Rightarrow> strategy \<Rightarrow> 'f contiguous_fs" where
  "new_fs N alg =
     \<lparr>memory_map = replicate N False, file_map = Map.empty, start_index = 0,
      strategy = alg, used_memory = 0\<rparr>"

text \<open>
  \<^verbatim>\<open>get_index\<close> dispatches on the strategy, in the order of the source. It returns
  the index and the state (only \<^verbatim>\<open>next_fit\<close> changes it).
\<close>

definition get_index ::
    "'f contiguous_fs \<Rightarrow> int \<Rightarrow> (fault + int \<times> 'f contiguous_fs) option" where
  "get_index s sz =
     (if strategy s = FIRST_FIT then
        (case first_fit (memory_map s) sz of
           None \<Rightarrow> None
         | Some (Inl e) \<Rightarrow> Some (Inl e)
         | Some (Inr r) \<Rightarrow> Some (Inr (r, s)))
      else if strategy s = BEST_FIT then
        (case best_fit (memory_map s) sz of
           Inl e \<Rightarrow> Some (Inl e)
         | Inr r \<Rightarrow> Some (Inr (r, s)))
      else if strategy s = WORST_FIT then
        (case worst_fit (memory_map s) sz of
           Inl e \<Rightarrow> Some (Inl e)
         | Inr r \<Rightarrow> Some (Inr (r, s)))
      else
        (case next_fit (memory_map s) (start_index s) sz of
           None \<Rightarrow> None
         | Some (Inl e) \<Rightarrow> Some (Inl e)
         | Some (Inr (r, si)) \<Rightarrow> Some (Inr (r, s\<lparr>start_index := si\<rparr>))))"

text \<open>\<^verbatim>\<open>ContiguousFileSystem::create\<close>\<close>

definition cfs_create ::
    "cfile contiguous_fs \<Rightarrow> string \<Rightarrow> int \<Rightarrow> (fault + status \<times> cfile contiguous_fs) option" where
  "cfs_create s filename fsz =
     (if file_map s filename \<noteq> None then Some (Inr (DuplicateName, s))
      else
        (case get_index s fsz of
           None \<Rightarrow> None
         | Some (Inl e) \<Rightarrow> Some (Inl e)
         | Some (Inr (start, s1)) \<Rightarrow>
             if start = - 1 then Some (Inr (OutOfSpace, s1))
             else
               (case set_loop (memory_map s1) start fsz 0 of
                  Inl e \<Rightarrow> Some (Inl e)
                | Inr m \<Rightarrow>
                    Some (Inr (Done,
                      s1\<lparr>memory_map := m,
                         used_memory := used_memory s1 + fsz,
                         file_map := (file_map s1)(filename \<mapsto>
                           \<lparr>filesize = fsz, start_block = start\<rparr>)\<rparr>)))))"

text \<open>
  \<^verbatim>\<open>ContiguousFileSystem::read\<close>. The loop
  \<^verbatim>\<open>for(int i = 0; i < fp->filesize && read < size; i++)\<close> carries \<open>i\<close>, \<open>read\<close>
  (here \<open>rd\<close>), the blocks printed so far and \<open>block_access\<close>; the printed
  block is \<^verbatim>\<open>fp->start_block + i\<close>.
\<close>

function cfs_read_loop ::
    "cfile \<Rightarrow> int \<Rightarrow> int \<Rightarrow> int \<Rightarrow> int \<Rightarrow> int list \<Rightarrow> int \<Rightarrow> int list \<times> int \<times> int" where
  "cfs_read_loop fp sz offset i rd evs block_access =
     (if i < filesize fp \<and> rd < sz then
        (if i \<ge> offset
         then cfs_read_loop fp sz offset (i + 1) (rd + 1) (evs @ [start_block fp + i]) (block_access + 1)
         else cfs_read_loop fp sz offset (i + 1) rd evs (block_access + 1))
      else (evs, rd, block_access))"
  by pat_completeness auto
termination
  by (relation "measure (\<lambda>(fp, sz, offset, i, rd, evs, block_access). nat (filesize fp - i))") auto

declare cfs_read_loop.simps [simp del]

text \<open>
  The result of \<open>cfs_read\<close> is the status, the blocks printed as read, and the
  returned integer: \<^verbatim>\<open>block_access\<close> (which is 1) when the file is not found,
  \<^verbatim>\<open>size+1\<close> at the end, an \<^verbatim>\<open>int\<close> addition. \<open>cfs_read_block_access\<close> is the
  value of the local variable \<^verbatim>\<open>block_access\<close> when the function returns.
\<close>

definition cfs_read ::
    "cfile contiguous_fs \<Rightarrow> string \<Rightarrow> int \<Rightarrow> int \<Rightarrow> fault + status \<times> int list \<times> int" where
  "cfs_read s filename sz offset =
     (case file_map s filename of
        None \<Rightarrow> Inr (NotFound, [], 1)
      | Some fp \<Rightarrow>
          (let sz1 = (if sz = - 1 then filesize fp else sz);
               (evs, rd, block_access) = cfs_read_loop fp sz1 offset 0 0 [] 1
           in if sz1 + 1 > INT_MAX then Inl Int_overflow
              else Inr (Done, evs, sz1 + 1)))"


text \<open>\<^verbatim>\<open>ContiguousFileSystem::delete_file\<close>\<close>

definition cfs_delete_file ::
    "cfile contiguous_fs \<Rightarrow> string \<Rightarrow> fault + status \<times> cfile contiguous_fs" where
  "cfs_delete_file s filename =
     (case file_map s filename of
        None \<Rightarrow> Inr (NotFound, s)
      | Some fp \<Rightarrow>
          (case reset_loop (memory_map s) (start_block fp) (filesize fp) 0 of
             Inl e \<Rightarrow> Inl e
           | Inr m \<Rightarrow>
               Inr (Done,
                 s\<lparr>memory_map := m,
                   used_memory := used_memory s - filesize fp,
                   file_map := (file_map s)(filename := None)\<rparr>)))"

text \<open>
  \<^verbatim>\<open>ContiguousFileSystem::write\<close>. The first loop of the growth branch,
  \<^verbatim>\<open>for(available = 0; available < req; available++) if(memory_map[available+end] == 1) break;\<close>
  returns the final \<open>available\<close>; \<open>endb\<close> is the local \<^verbatim>\<open>end\<close>.
\<close>

function avail_loop :: "bitset \<Rightarrow> int \<Rightarrow> int \<Rightarrow> int \<Rightarrow> fault + int" where
  "avail_loop m endb req available =
     (if available < req then
        (case bs_test m (available + endb) of
           Inl e \<Rightarrow> Inl e
         | Inr b \<Rightarrow> if b then Inr available else avail_loop m endb req (available + 1))
      else Inr available)"
  by pat_completeness auto
termination
  by (relation "measure (\<lambda>(m, endb, req, available). nat (req - available))") auto

declare avail_loop.simps [simp del]

text \<open>
  The result is the status, the state and the returned integer. The last loop of the
  source only prints and counts; the function returns \<^verbatim>\<open>size+1\<close>.
\<close>

definition cfs_write ::
    "cfile contiguous_fs \<Rightarrow> string \<Rightarrow> int \<Rightarrow> int \<Rightarrow> fault + status \<times> cfile contiguous_fs \<times> int" where
  "cfs_write s filename sz offset =
     (case file_map s filename of
        None \<Rightarrow> Inr (NotFound, s, 1)
      | Some fp \<Rightarrow>
          if sz + offset > filesize fp then
            (let req = sz + offset - filesize fp;
                 endb = start_block fp + filesize fp
             in case avail_loop (memory_map s) endb req 0 of
                  Inl e \<Rightarrow> Inl e
                | Inr available \<Rightarrow>
                    if available \<noteq> req then Inr (OutOfSpace, s, 1)
                    else
                      (case set_loop (memory_map s) endb req 0 of
                         Inl e \<Rightarrow> Inl e
                       | Inr m \<Rightarrow>
                           Inr (Done,
                             s\<lparr>memory_map := m,
                               file_map := (file_map s)(filename \<mapsto>
                                 fp\<lparr>filesize := filesize fp + req\<rparr>),
                               used_memory := used_memory s + req\<rparr>,
                             sz + 1)))
          else Inr (Done, s, sz + 1))"

section \<open>ModifiedContiguousFileSystem\<close>

text \<open>
  A file is \<^verbatim>\<open>filesize\<close> and \<^verbatim>\<open>start\<close>, the head of a chain of \<^verbatim>\<open>block\<close>
  objects \<^verbatim>\<open>{start_block, size, next}\<close>. Every node is allocated by \<^verbatim>\<open>new\<close>
  for one file and reached through that file only, so the chain is the list of its
  nodes in order and \<^verbatim>\<open>next\<close> is the tail of the list.
\<close>

record mblock =
  mb_start_block :: int
  mb_size :: int

record mfile =
  mc_filesize :: int
  mc_start :: "mblock list"

text \<open>\<^verbatim>\<open>ModifiedContiguousFileSystem::create\<close>\<close>

definition mcfs_create ::
    "mfile contiguous_fs \<Rightarrow> string \<Rightarrow> int \<Rightarrow> (fault + status \<times> mfile contiguous_fs) option" where
  "mcfs_create s filename fsz =
     (if file_map s filename \<noteq> None then Some (Inr (DuplicateName, s))
      else
        (case get_index s fsz of
           None \<Rightarrow> None
         | Some (Inl e) \<Rightarrow> Some (Inl e)
         | Some (Inr (start, s1)) \<Rightarrow>
             if start = - 1 then Some (Inr (OutOfSpace, s1))
             else
               (case set_loop (memory_map s1) start fsz 0 of
                  Inl e \<Rightarrow> Some (Inl e)
                | Inr m \<Rightarrow>
                    Some (Inr (Done,
                      s1\<lparr>memory_map := m,
                         used_memory := used_memory s1 + fsz,
                         file_map := (file_map s1)(filename \<mapsto>
                           \<lparr>mc_filesize = fsz,
                            mc_start = [\<lparr>mb_start_block = start, mb_size = fsz\<rparr>]\<rparr>)\<rparr>)))))"

text \<open>
  \<^verbatim>\<open>ModifiedContiguousFileSystem::write\<close>. The inner loop of the walk,
  \<^verbatim>\<open>for(int i = wrt; i < b->size && written != size; i++)\<close>, returns \<open>written\<close> and
  \<open>block_access\<close>.
\<close>

function mcfs_write_run :: "int \<Rightarrow> int \<Rightarrow> int \<Rightarrow> int \<Rightarrow> int \<Rightarrow> int \<times> int" where
  "mcfs_write_run bsize sz i written block_access =
     (if i < bsize \<and> written \<noteq> sz
      then mcfs_write_run bsize sz (i + 1) (written + 1) (block_access + 1)
      else (written, block_access))"
  by pat_completeness auto
termination
  by (relation "measure (\<lambda>(bsize, sz, i, written, block_access). nat (bsize - i))") auto

declare mcfs_write_run.simps [simp del]

text \<open>
  The walk \<^verbatim>\<open>while(b && written < size)\<close> over the chain from \<open>b\<close>. The last
  argument counts the nodes passed: \<^verbatim>\<open>last\<close> is \<^verbatim>\<open>nullptr\<close> when it is 0 and
  the node of that number otherwise. The result is \<open>written\<close>, \<open>block_access\<close> and
  that count.
\<close>

fun mcfs_write_walk ::
    "mblock list \<Rightarrow> int \<Rightarrow> int \<Rightarrow> int \<Rightarrow> int \<Rightarrow> int \<Rightarrow> nat \<Rightarrow> int \<times> int \<times> nat" where
  "mcfs_write_walk [] sz offset bno written block_access k = (written, block_access, k)"
| "mcfs_write_walk (b # rest) sz offset bno written block_access k =
     (if written < sz then
        (if offset \<ge> bno \<and> offset < bno + mb_size b then
           (let wrt = offset - bno;
                ba = (if wrt = 0 then block_access + 1 - 1 else block_access + 1);
                (written1, ba1) = mcfs_write_run (mb_size b) sz wrt written ba
            in mcfs_write_walk rest sz (offset + written1) (bno + mb_size b) written1 ba1 (Suc k))
         else mcfs_write_walk rest sz offset (bno + mb_size b) written (block_access + 1) (Suc k))
      else (written, block_access, k))"

text \<open>
  The growth branch calls \<^verbatim>\<open>get_index(req)\<close>, then runs the loop
  \<^verbatim>\<open>memory_map.set(i+index)\<close>, and only then tests \<^verbatim>\<open>index == -1\<close>. The file
  is not found: the function returns 0. \<^verbatim>\<open>last->next = newblock\<close> cuts the chain
  after the node \<^verbatim>\<open>last\<close> and appends the new node. The function returns
  \<^verbatim>\<open>size+1\<close> at its end.
\<close>

definition mcfs_write ::
    "mfile contiguous_fs \<Rightarrow> string \<Rightarrow> int \<Rightarrow> int \<Rightarrow>
       (fault + status \<times> mfile contiguous_fs \<times> int) option" where
  "mcfs_write s filename sz offset =
     (case file_map s filename of
        None \<Rightarrow> Some (Inr (NotFound, s, 0))
      | Some fp \<Rightarrow>
          if sz + offset > mc_filesize fp then
            (let req = sz + offset - mc_filesize fp
             in case get_index s req of
                  None \<Rightarrow> None
                | Some (Inl e) \<Rightarrow> Some (Inl e)
                | Some (Inr (index, s1)) \<Rightarrow>
                    (case set_loop (memory_map s1) index req 0 of
                       Inl e \<Rightarrow> Some (Inl e)
                     | Inr m \<Rightarrow>
                         if index = - 1 then Some (Inr (OutOfSpace, s1\<lparr>memory_map := m\<rparr>, 1))
                         else
                           (let newblock = \<lparr>mb_start_block = index, mb_size = req\<rparr>;
                                (written, block_access, k) =
                                   mcfs_write_walk (mc_start fp) sz offset 0 0 1 0
                            in if k = 0 then Some (Inl Null_deref)
                               else
                                 Some (Inr (Done,
                                   s1\<lparr>memory_map := m,
                                      used_memory := used_memory s1 + req,
                                      file_map := (file_map s1)(filename \<mapsto>
                                        \<lparr>mc_filesize = mc_filesize fp + req,
                                         mc_start = take k (mc_start fp) @ [newblock]\<rparr>)\<rparr>,
                                   sz + 1)))))
          else Some (Inr (Done, s, sz + 1)))"

text \<open>
  \<^verbatim>\<open>ModifiedContiguousFileSystem::delete_file\<close>: the loop over the chain resets
  the blocks of every node.
\<close>

fun mcfs_release :: "bitset \<Rightarrow> mblock list \<Rightarrow> fault + bitset" where
  "mcfs_release m [] = Inr m"
| "mcfs_release m (b # rest) =
     (case reset_loop m (mb_start_block b) (mb_size b) 0 of
        Inl e \<Rightarrow> Inl e
      | Inr m' \<Rightarrow> mcfs_release m' rest)"

definition mcfs_delete_file ::
    "mfile contiguous_fs \<Rightarrow> string \<Rightarrow> fault + status \<times> mfile contiguous_fs" where
  "mcfs_delete_file s filename =
     (case file_map s filename of
        None \<Rightarrow> Inr (NotFound, s)
      | Some fp \<Rightarrow>
          (case mcfs_release (memory_map s) (mc_start fp) of
             Inl e \<Rightarrow> Inl e
           | Inr m \<Rightarrow>
               Inr (Done,
                 s\<lparr>memory_map := m,
                   used_memory := used_memory s - mc_filesize fp,
                   file_map := (file_map s)(filename := None)\<rparr>)))"

section \<open>LinkedFileSystem\<close>

text \<open>
  The constructor allocates one \<^verbatim>\<open>block\<close> object \<^verbatim>\<open>{id, next}\<close> for every
  \<open>i < N\<close>, and no other is ever allocated or freed. A \<^verbatim>\<open>block*\<close> is therefore the
  number of its object (\<open>Some i\<close>) or \<^verbatim>\<open>nullptr\<close> (\<open>None\<close>), and the \<^verbatim>\<open>next\<close>
  members are a store indexed by that number.
\<close>

type_synonym bptr = "nat option"

record lfile =
  l_filesize :: int
  l_start_block :: bptr

record linked_fs =
  l_free_list :: "nat list"
  l_next :: "bptr list"
  l_file_map :: "string \<rightharpoonup> lfile"
  l_used_memory :: int

definition new_lfs :: "nat \<Rightarrow> linked_fs" where
  "new_lfs N =
     \<lparr>l_free_list = [0..<N], l_next = replicate N None, l_file_map = Map.empty,
      l_used_memory = 0\<rparr>"

text \<open>
  The loop of \<^verbatim>\<open>create\<close>,
  \<^verbatim>\<open>for(int i = 1; i < size; i++){ start->next = free_list.front(); free_list.pop_front(); start = start->next; }\<close>
\<close>

function lfs_link ::
    "bptr list \<Rightarrow> nat list \<Rightarrow> nat \<Rightarrow> int \<Rightarrow> int \<Rightarrow> fault + bptr list \<times> nat list" where
  "lfs_link nx fl start sz i =
     (if i < sz then
        (case fl of
           [] \<Rightarrow> Inl List_front_empty
         | c # fl' \<Rightarrow>
             if start < length nx then lfs_link (nx[start := Some c]) fl' c sz (i + 1)
             else Inl Bad_pointer)
      else Inr (nx, fl))"
  by pat_completeness auto
termination
  by (relation "measure (\<lambda>(nx, fl, start, sz, i). nat (sz - i))") auto

declare lfs_link.simps [simp del]

text \<open>
  \<^verbatim>\<open>LinkedFileSystem::create\<close>. The test \<^verbatim>\<open>free_list.size() < size\<close> compares
  a \<^verbatim>\<open>size_t\<close> with an \<^verbatim>\<open>int\<close>. The first block is taken from the free list before
  the loop.
\<close>

definition lfs_create :: "linked_fs \<Rightarrow> string \<Rightarrow> int \<Rightarrow> fault + status \<times> linked_fs" where
  "lfs_create s filename sz =
     (if l_file_map s filename \<noteq> None then Inr (DuplicateName, s)
      else if int (length (l_free_list s)) < to_size_t sz then Inr (OutOfSpace, s)
      else
        (case l_free_list s of
           [] \<Rightarrow> Inl List_front_empty
         | start # fl \<Rightarrow>
             (case lfs_link (l_next s) fl start sz 1 of
                Inl e \<Rightarrow> Inl e
              | Inr (nx, fl') \<Rightarrow>
                  Inr (Done,
                    s\<lparr>l_free_list := fl',
                      l_next := nx,
                      l_used_memory := l_used_memory s + sz,
                      l_file_map := (l_file_map s)(filename \<mapsto>
                        \<lparr>l_filesize = sz, l_start_block = Some start\<rparr>)\<rparr>))))"

text \<open>
  The loop of \<^verbatim>\<open>delete_file\<close>,
  \<^verbatim>\<open>while(curr){ block* next = curr->next; curr->next = nullptr; free_list.push_back(curr); curr = next; }\<close>
  (\<open>cur\<close> is the local \<^verbatim>\<open>curr\<close>).
\<close>

function lfs_unlink :: "bptr list \<Rightarrow> nat list \<Rightarrow> bptr \<Rightarrow> fault + bptr list \<times> nat list" where
  "lfs_unlink nx fl cur =
     (case cur of
        None \<Rightarrow> Inr (nx, fl)
      | Some c \<Rightarrow>
          if c < length nx then lfs_unlink (nx[c := None]) (fl @ [c]) (nx ! c)
          else Inl Bad_pointer)"
  by pat_completeness auto
termination
proof (relation "measure (\<lambda>(nx, fl, cur).
         length (filter (\<lambda>p. p \<noteq> None) nx) + (case cur of None \<Rightarrow> 0 | Some c \<Rightarrow> 1))")
  show "wf (measure (\<lambda>(nx, fl, cur).
         length (filter (\<lambda>p. p \<noteq> None) nx) + (case cur of None \<Rightarrow> 0 | Some c \<Rightarrow> 1)))"
    by simp
  show "((nx[c := None], fl @ [c], nx ! c), nx, fl, cur)
          \<in> measure (\<lambda>(nx, fl, cur).
               length (filter (\<lambda>p. p \<noteq> None) nx) + (case cur of None \<Rightarrow> 0 | Some c \<Rightarrow> 1))"
    if "cur = Some c" "c < length nx" for nx :: "bptr list" and fl cur c
  proof (cases "nx ! c")
    case None
    with that have "nx[c := None] = nx"
      by (metis list_update_id)
    with None that show ?thesis by simp
  next
    case (Some n)
    have split_nx: "nx = take c nx @ nx ! c # drop (Suc c) nx"
      using that by (simp add: id_take_nth_drop)
    have "nx[c := None] = take c nx @ None # drop (Suc c) nx"
      using that by (simp add: upd_conv_take_nth_drop)
    then have "length (filter (\<lambda>p. p \<noteq> None) (nx[c := None]))
                 = length (filter (\<lambda>p. p \<noteq> None) (take c nx))
                   + length (filter (\<lambda>p. p \<noteq> None) (drop (Suc c) nx))"
      by simp
    moreover have "length (filter (\<lambda>p. p \<noteq> None) nx)
                 = length (filter (\<lambda>p. p \<noteq> None) (take c nx)) + 1
                   + length (filter (\<lambda>p. p \<noteq> None) (drop (Suc c) nx))"
      by (subst split_nx) (simp add: Some)
    ultimately show ?thesis
      using that Some by simp
  qed
qed

declare lfs_unlink.simps [simp del]

text \<open>\<^verbatim>\<open>LinkedFileSystem::delete_file\<close>\<close>

definition lfs_delete_file :: "linked_fs \<Rightarrow> string \<Rightarrow> fault + status \<times> linked_fs" where
  "lfs_delete_file s filename =
     (case l_file_map s filename of
        None \<Rightarrow> Inr (NotFound, s)
      | Some fp \<Rightarrow>
          (case lfs_unlink (l_next s) (l_free_list s) (l_start_block fp) of
             Inl e \<Rightarrow> Inl e
           | Inr (nx, fl) \<Rightarrow>
               Inr (Done,
                 s\<lparr>l_free_list := fl,
                   l_next := nx,
                   l_used_memory := l_used_memory s - l_filesize fp,
                   l_file_map := (l_file_map s)(filename := None)\<rparr>)))"

section \<open>IndexedFileSystem\<close>

record ifile =
  i_filesize :: int
  block_indices :: "int list"

record indexed_fs =
  i_file_map :: "string \<rightharpoonup> ifile"
  i_free_list :: "int list"
  i_used_memory :: int

definition new_ifs :: "nat \<Rightarrow> indexed_fs" where
  "new_ifs N =
     \<lparr>i_file_map = Map.empty, i_free_list = map int [0..<N], i_used_memory = 0\<rparr>"

text \<open>
  The loop of \<^verbatim>\<open>create\<close>,
  \<^verbatim>\<open>for(int i = 0; i < size; i++){ fp->block_indices.push_back(free_list.front()); free_list.pop_front(); }\<close>
\<close>

function ifs_take :: "int list \<Rightarrow> int list \<Rightarrow> int \<Rightarrow> int \<Rightarrow> fault + int list \<times> int list" where
  "ifs_take bi fl sz i =
     (if i < sz then
        (case fl of
           [] \<Rightarrow> Inl List_front_empty
         | b # fl' \<Rightarrow> ifs_take (bi @ [b]) fl' sz (i + 1))
      else Inr (bi, fl))"
  by pat_completeness auto
termination
  by (relation "measure (\<lambda>(bi, fl, sz, i). nat (sz - i))") auto

declare ifs_take.simps [simp del]

text \<open>
  \<^verbatim>\<open>IndexedFileSystem::create\<close>. Its last statement prints
  \<^verbatim>\<open>fp->block_indices[0]\<close>.
\<close>

definition ifs_create :: "indexed_fs \<Rightarrow> string \<Rightarrow> int \<Rightarrow> fault + status \<times> indexed_fs" where
  "ifs_create s filename sz =
     (if i_file_map s filename \<noteq> None then Inr (DuplicateName, s)
      else if int (length (i_free_list s)) < to_size_t sz then Inr (OutOfSpace, s)
      else
        (case ifs_take [] (i_free_list s) sz 0 of
           Inl e \<Rightarrow> Inl e
         | Inr (bi, fl) \<Rightarrow>
             if bi = [] then Inl (Vector_index_ub 0)
             else
               Inr (Done,
                 s\<lparr>i_free_list := fl,
                   i_used_memory := i_used_memory s + sz,
                   i_file_map := (i_file_map s)(filename \<mapsto>
                     \<lparr>i_filesize = sz, block_indices = bi\<rparr>)\<rparr>)))"

text \<open>
  The loop of \<^verbatim>\<open>write\<close>, \<^verbatim>\<open>while(written < size)\<close>. It carries the file, the
  free list, \<^verbatim>\<open>used_memory\<close>, \<open>written\<close>, \<open>bno\<close> and \<open>block_access\<close>. The test
  \<^verbatim>\<open>bno >= fp->block_indices.size()\<close> compares an \<^verbatim>\<open>int\<close> with a \<^verbatim>\<open>size_t\<close>;
  \<^verbatim>\<open>fp->block_indices[bno]\<close> is then read for printing.
\<close>

function ifs_write_loop ::
    "int \<Rightarrow> ifile \<Rightarrow> int list \<Rightarrow> int \<Rightarrow> int \<Rightarrow> int \<Rightarrow> int \<Rightarrow>
       fault + ifile \<times> int list \<times> int \<times> int" where
  "ifs_write_loop sz fp fl um written bno block_access =
     (if written < sz then
        (case (if to_size_t bno \<ge> int (length (block_indices fp)) then
                 (case fl of
                    [] \<Rightarrow> Inl List_front_empty
                  | b # fl' \<Rightarrow>
                      Inr (fp\<lparr>block_indices := block_indices fp @ [b],
                              i_filesize := i_filesize fp + 1\<rparr>, fl', um + 1))
               else Inr (fp, fl, um)) of
           Inl e \<Rightarrow> Inl e
         | Inr (fp1, fl1, um1) \<Rightarrow>
             if 0 \<le> bno \<and> bno < int (length (block_indices fp1))
             then ifs_write_loop sz fp1 fl1 um1 (written + 1) (bno + 1) (block_access + 1)
             else Inl (Vector_index_ub bno))
      else Inr (fp, fl, um, block_access))"
  by pat_completeness auto
termination
  by (relation "measure (\<lambda>(sz, fp, fl, um, written, bno, block_access). nat (sz - written))") auto

declare ifs_write_loop.simps [simp del]

text \<open>
  \<^verbatim>\<open>IndexedFileSystem::write\<close>. The result is the status, the state and the
  returned \<^verbatim>\<open>block_access\<close>.
\<close>

definition ifs_write ::
    "indexed_fs \<Rightarrow> string \<Rightarrow> int \<Rightarrow> int \<Rightarrow> fault + status \<times> indexed_fs \<times> int" where
  "ifs_write s filename sz offset =
     (case i_file_map s filename of
        None \<Rightarrow> Inr (NotFound, s, 1)
      | Some fp \<Rightarrow>
          if offset + sz > i_filesize fp
             \<and> to_size_t (offset + sz - i_filesize fp) > int (length (i_free_list s))
          then Inr (OutOfSpace, s, 1)
          else
            (case ifs_write_loop sz fp (i_free_list s) (i_used_memory s) 0 offset 1 of
               Inl e \<Rightarrow> Inl e
             | Inr (fp1, fl, um, block_access) \<Rightarrow>
                 Inr (Done,
                   s\<lparr>i_free_list := fl,
                     i_used_memory := um,
                     i_file_map := (i_file_map s)(filename \<mapsto> fp1)\<rparr>,
                   block_access)))"

text \<open>\<^verbatim>\<open>IndexedFileSystem::delete_file\<close>\<close>

definition ifs_delete_file :: "indexed_fs \<Rightarrow> string \<Rightarrow> fault + status \<times> indexed_fs" where
  "ifs_delete_file s filename =
     (case i_file_map s filename of
        None \<Rightarrow> Inr (NotFound, s)
      | Some fp \<Rightarrow>
          Inr (Done,
            s\<lparr>i_free_list := i_free_list s @ block_indices fp,
              i_used_memory := i_used_memory s - i_filesize fp,
              i_file_map := (i_file_map s)(filename := None)\<rparr>))"

section \<open>Auxiliary notions for the properties\<close>

text \<open>
  \<open>free_between m a b\<close>: every position of \<open>[a, b)\<close> is a block of the device and is
  free in \<open>m\<close>.
\<close>

definition free_between :: "bitset \<Rightarrow> int \<Rightarrow> int \<Rightarrow> bool" where
  "free_between m a b =
     (\<forall>p. a \<le> p \<and> p < b \<longrightarrow> 0 \<le> p \<and> p < int (length m) \<and> \<not> m ! nat p)"

text \<open>
  \<open>is_chain nx p cs\<close>: following the \<^verbatim>\<open>next\<close> members of the store \<open>nx\<close> from the
  pointer \<open>p\<close> visits exactly the block objects \<open>cs\<close>, in this order, and then
  reaches \<^verbatim>\<open>nullptr\<close>.
\<close>

primrec is_chain :: "bptr list \<Rightarrow> bptr \<Rightarrow> nat list \<Rightarrow> bool" where
  "is_chain nx p [] = (p = None)"
| "is_chain nx p (c # cs) = (p = Some c \<and> c < length nx \<and> is_chain nx (nx ! c) cs)"

text \<open>
  The free list of a LinkedFileSystem holds every free block object once, and the
  \<^verbatim>\<open>next\<close> member of a free block object is \<^verbatim>\<open>nullptr\<close> (the constructor
  builds the list so, and \<^verbatim>\<open>delete_file\<close> clears \<^verbatim>\<open>next\<close> before it appends).
\<close>

definition lfs_wf :: "linked_fs \<Rightarrow> bool" where
  "lfs_wf s =
     (distinct (l_free_list s)
      \<and> (\<forall>b \<in> set (l_free_list s). b < length (l_next s) \<and> l_next s ! b = None))"

text \<open>The sum of the sizes of the live files of a LinkedFileSystem.\<close>

definition lfs_live_size :: "linked_fs \<Rightarrow> int" where
  "lfs_live_size s = (\<Sum>n \<in> dom (l_file_map s). l_filesize (the (l_file_map s n)))"

text \<open>
  In an IndexedFileSystem the member \<^verbatim>\<open>filesize\<close> of every file is the length of
  its index table.
\<close>

definition ifs_inv :: "indexed_fs \<Rightarrow> bool" where
  "ifs_inv s =
     (\<forall>n fp. i_file_map s n = Some fp \<longrightarrow> i_filesize fp = int (length (block_indices fp)))"

text \<open>
  The invariant of the LinkedFileSystem under create and delete_file: the free list is
  well formed, every file owns a chain of distinct block objects that ends in
  \<^verbatim>\<open>nullptr\<close>, and the chains and the free list share no block.
\<close>

definition lfs_inv :: "linked_fs \<Rightarrow> bool" where
  "lfs_inv s =
     (lfs_wf s
      \<and> (\<exists>ch. \<forall>n fp. l_file_map s n = Some fp \<longrightarrow>
             is_chain (l_next s) (l_start_block fp) (ch n)
             \<and> distinct (ch n)
             \<and> set (ch n) \<inter> set (l_free_list s) = {}
             \<and> (\<forall>n' fp'. n' \<noteq> n \<and> l_file_map s n' = Some fp' \<longrightarrow>
                   set (ch n) \<inter> set (ch n') = {})))"

section \<open>The loops over the block map\<close>

lemma set_loop_result:
  "set_loop m base n i = Inr m' \<Longrightarrow>
     length m' = length m
     \<and> (\<forall>k < length m. m' ! k = (m ! k \<or> (base + i \<le> int k \<and> int k < base + n)))"
proof (induction m base n i rule: set_loop.induct)
  case (1 m base n i)
  show ?case
  proof (cases "i < n")
    case False
    with "1.prems" show ?thesis
      by (subst (asm) set_loop.simps) auto
  next
    case True
    with "1.prems" obtain m1 where
      m1: "bs_set m (i + base) = Inr m1" and rec: "set_loop m1 base n (i + 1) = Inr m'"
      by (subst (asm) set_loop.simps) (auto split: sum.splits)
    from m1 have pos: "0 \<le> i + base" "i + base < int (length m)"
      and m1_def: "m1 = m[nat (i + base) := True]"
      by (auto simp: bs_set_def split: if_splits)
    from "1.IH" [OF True m1 rec]
    have len: "length m' = length m1"
      and nth: "\<And>k. k < length m1 \<Longrightarrow>
                  m' ! k = (m1 ! k \<or> (base + (i + 1) \<le> int k \<and> int k < base + n))"
      by auto
    have "m' ! k = (m ! k \<or> (base + i \<le> int k \<and> int k < base + n))" if "k < length m" for k
    proof (cases "k = nat (i + base)")
      case True
      with that pos True \<open>i < n\<close> nth [of k] show ?thesis
        by (auto simp: m1_def)
    next
      case False
      then have "m1 ! k = m ! k"
        by (simp add: m1_def)
      moreover from False pos have "(base + (i + 1) \<le> int k) = (base + i \<le> int k)"
        by auto
      ultimately show ?thesis
        using nth [of k] that by (simp add: m1_def)
    qed
    with len show ?thesis
      by (simp add: m1_def)
  qed
qed

lemma set_loop_in_range:
  "set_loop m base n i = Inr m' \<Longrightarrow> i < n \<Longrightarrow> 0 \<le> base + i \<and> base + n \<le> int (length m)"
proof (induction m base n i rule: set_loop.induct)
  case (1 m base n i)
  from "1.prems" obtain m1 where
    m1: "bs_set m (i + base) = Inr m1" and rec: "set_loop m1 base n (i + 1) = Inr m'"
    by (subst (asm) set_loop.simps) (auto split: sum.splits)
  from m1 have pos: "0 \<le> i + base" "i + base < int (length m)" and len: "length m1 = length m"
    by (auto simp: bs_set_def split: if_splits)
  show ?case
  proof (cases "i + 1 < n")
    case True
    from "1.IH" [OF \<open>i < n\<close> m1 rec True] pos len show ?thesis
      by auto
  next
    case False
    with \<open>i < n\<close> pos show ?thesis by auto
  qed
qed

lemma reset_loop_result:
  "i < n \<longrightarrow> 0 \<le> base + i \<and> base + n \<le> int (length m) \<Longrightarrow>
   \<exists>m'. reset_loop m base n i = Inr m' \<and> length m' = length m
     \<and> (\<forall>k < length m. m' ! k = (m ! k \<and> \<not> (base + i \<le> int k \<and> int k < base + n)))"
proof (induction m base n i rule: reset_loop.induct)
  case (1 m base n i)
  show ?case
  proof (cases "i < n")
    case False
    then show ?thesis
      by (subst reset_loop.simps) auto
  next
    case True
    with "1.prems" have pos: "0 \<le> base + i" "base + i < int (length m)" "base + n \<le> int (length m)"
      by auto
    define m1 where "m1 = m[nat (base + i) := False]"
    from pos have m1: "bs_reset m (base + i) = Inr m1"
      by (simp add: bs_reset_def m1_def)
    have "i + 1 < n \<longrightarrow> 0 \<le> base + (i + 1) \<and> base + n \<le> int (length m1)"
      using pos by (simp add: m1_def)
    from "1.IH" [OF True m1 this] obtain m' where
      rec: "reset_loop m1 base n (i + 1) = Inr m'" and len: "length m' = length m1"
      and nth: "\<And>k. k < length m1 \<Longrightarrow>
                  m' ! k = (m1 ! k \<and> \<not> (base + (i + 1) \<le> int k \<and> int k < base + n))"
      by auto
    have "m' ! k = (m ! k \<and> \<not> (base + i \<le> int k \<and> int k < base + n))" if "k < length m" for k
    proof (cases "k = nat (base + i)")
      case True
      with that pos \<open>i < n\<close> nth [of k] show ?thesis
        by (auto simp: m1_def)
    next
      case False
      then have "m1 ! k = m ! k"
        by (simp add: m1_def)
      moreover from False pos have "(base + (i + 1) \<le> int k) = (base + i \<le> int k)"
        by auto
      ultimately show ?thesis
        using nth [of k] that by (simp add: m1_def)
    qed
    moreover have "reset_loop m base n i = Inr m'"
      using True m1 rec by (subst reset_loop.simps) simp
    ultimately show ?thesis
      using len by (simp add: m1_def)
  qed
qed

lemma set_then_reset:
  assumes set: "set_loop m base n 0 = Inr m1"
      and free: "\<forall>p. base \<le> p \<and> p < base + n \<and> 0 \<le> p \<and> p < int (length m) \<longrightarrow> \<not> m ! nat p"
  shows "reset_loop m1 base n 0 = Inr m"
proof -
  from set_loop_result [OF set]
  have len1: "length m1 = length m"
    and nth1: "\<And>k. k < length m \<Longrightarrow> m1 ! k = (m ! k \<or> (base \<le> int k \<and> int k < base + n))"
    by auto
  have "0 < n \<longrightarrow> 0 \<le> base + 0 \<and> base + n \<le> int (length m1)"
    using set_loop_in_range [OF set] len1 by auto
  from reset_loop_result [OF this] obtain m2 where
    res: "reset_loop m1 base n 0 = Inr m2" and len2: "length m2 = length m1"
    and nth2: "\<And>k. k < length m1 \<Longrightarrow> m2 ! k = (m1 ! k \<and> \<not> (base \<le> int k \<and> int k < base + n))"
    by auto
  have "m2 = m"
  proof (rule nth_equalityI)
    show "length m2 = length m"
      using len1 len2 by simp
    fix k assume "k < length m2"
    then have k: "k < length m"
      using len1 len2 by simp
    show "m2 ! k = m ! k"
    proof (cases "base \<le> int k \<and> int k < base + n")
      case True
      with free k have "\<not> m ! k"
        by (metis nat_int of_nat_0_le_iff of_nat_less_iff)
      with True nth2 [of k] k len1 show ?thesis by simp
    next
      case False
      with nth1 [OF k] nth2 [of k] k len1 show ?thesis by simp
    qed
  qed
  with res show ?thesis by simp
qed

lemma set_loop_succeeds:
  "i < n \<longrightarrow> 0 \<le> base + i \<and> base + n \<le> int (length m) \<Longrightarrow>
   \<exists>m'. set_loop m base n i = Inr m'"
proof (induction m base n i rule: set_loop.induct)
  case (1 m base n i)
  show ?case
  proof (cases "i < n")
    case False
    then show ?thesis
      by (subst set_loop.simps) simp
  next
    case True
    with "1.prems" have pos: "0 \<le> i + base" "i + base < int (length m)" "base + n \<le> int (length m)"
      by auto
    define m1 where "m1 = m[nat (i + base) := True]"
    from pos have m1: "bs_set m (i + base) = Inr m1"
      by (simp add: bs_set_def m1_def)
    have "i + 1 < n \<longrightarrow> 0 \<le> base + (i + 1) \<and> base + n \<le> int (length m1)"
      using pos by (simp add: m1_def)
    from "1.IH" [OF True m1 this] obtain m' where "set_loop m1 base n (i + 1) = Inr m'"
      by blast
    with True m1 have "set_loop m base n i = Inr m'"
      by (subst set_loop.simps) simp
    then show ?thesis by blast
  qed
qed

section \<open>What a successful hole search returns\<close>

lemma free_between_step:
  "bs_test m a = Inr False \<Longrightarrow> free_between m (a + 1) b \<Longrightarrow> free_between m a b"
  unfolding free_between_def
proof (intro allI impI)
  fix p
  assume t: "bs_test m a = Inr False"
    and r: "\<forall>p. a + 1 \<le> p \<and> p < b \<longrightarrow> 0 \<le> p \<and> p < int (length m) \<and> \<not> m ! nat p"
    and p: "a \<le> p \<and> p < b"
  from t have "0 \<le> a \<and> a < int (length m) \<and> \<not> m ! nat a"
    by (auto simp: bs_test_def split: if_splits)
  moreover from p have "p = a \<or> (a + 1 \<le> p \<and> p < b)"
    by auto
  ultimately show "0 \<le> p \<and> p < int (length m) \<and> \<not> m ! nat p"
    using r by auto
qed

lemma free_between_empty: "b \<le> a \<Longrightarrow> free_between m a b"
  by (auto simp: free_between_def)

lemma free_between_shrink: "free_between m a b \<Longrightarrow> c \<le> b \<Longrightarrow> free_between m a c"
  by (auto simp: free_between_def)

lemma free_between_tail: "free_between m a b \<Longrightarrow> a \<le> c \<Longrightarrow> free_between m c b"
  by (auto simp: free_between_def)

lemma free_between_first: "free_between m a b \<Longrightarrow> a < b \<Longrightarrow> \<not> m ! nat a"
  unfolding free_between_def by (drule spec [of _ a]) simp

lemma scan_bounded_free:
  "scan_bounded m lim j = Inr j' \<Longrightarrow> j \<le> j' \<and> free_between m j j'"
proof (induction m lim j rule: scan_bounded.induct)
  case (1 m lim j)
  show ?case
  proof (cases "j < int (length m) \<and> j < lim \<and> bs_test m j = Inr False")
    case True
    with "1.prems" have rec: "scan_bounded m lim (j + 1) = Inr j'"
      by (subst (asm) scan_bounded.simps) simp
    from True have "j < int (length m) \<and> j < lim" "bs_test m j = Inr False" "\<not> False"
      by auto
    from "1.IH" [OF this rec] have "j + 1 \<le> j'" "free_between m (j + 1) j'"
      by auto
    with True show ?thesis
      by (auto intro: free_between_step)
  next
    case False
    with "1.prems" have "j' = j"
      by (subst (asm) scan_bounded.simps) (auto split: if_splits sum.splits)
    then show ?thesis
      by (simp add: free_between_empty)
  qed
qed

lemma scan_free_free:
  "scan_free m j = Inr j' \<Longrightarrow> j \<le> j' \<and> free_between m j j'"
proof (induction m j rule: scan_free.induct)
  case (1 m j)
  show ?case
  proof (cases "j < int (length m) \<and> bs_test m j = Inr False")
    case True
    with "1.prems" have rec: "scan_free m (j + 1) = Inr j'"
      by (subst (asm) scan_free.simps) simp
    from True have "j < int (length m)" "bs_test m j = Inr False" "\<not> False"
      by auto
    from "1.IH" [OF this rec] have "j + 1 \<le> j'" "free_between m (j + 1) j'"
      by auto
    with True show ?thesis
      by (auto intro: free_between_step)
  next
    case False
    with "1.prems" have "j' = j"
      by (subst (asm) scan_free.simps) (auto split: if_splits sum.splits)
    then show ?thesis
      by (simp add: free_between_empty)
  qed
qed

lemma first_fit_loop_free:
  assumes "first_fit_loop m sz i = Some y"
  shows "\<forall>r. y = Inr r \<and> r \<noteq> - 1 \<longrightarrow> free_between m r (r + sz)"
proof (rule first_fit_loop.raw_induct
    [where P = "\<lambda>m sz i y. \<forall>r. y = Inr r \<and> r \<noteq> - 1 \<longrightarrow> free_between m r (r + sz)",
     OF _ assms], goal_cases)
  case (1 first_fit_loop m sz i y)
  note IH = "1"(1) and hyps = "1"(2)
  show ?case
  proof (intro allI impI)
    fix r assume r: "y = Inr r \<and> r \<noteq> - 1"
    show "free_between m r (r + sz)"
    proof (cases "i < int (length m)")
      case False
      with hyps r show ?thesis by simp
    next
      case True
      show ?thesis
      proof (cases "bs_test m i")
        case (Inl e)
        with True hyps r show ?thesis by simp
      next
        case (Inr b)
        show ?thesis
        proof (cases b)
          case used: True
          with True Inr hyps have "first_fit_loop m sz (i + 1) = Some y"
            by simp
          from IH [OF this] r show ?thesis by blast
        next
          case free: False
          show ?thesis
          proof (cases "scan_bounded m (i + sz) i")
            case (Inl e)
            with True Inr free hyps r show ?thesis by simp
          next
            case scan: (Inr j)
            show ?thesis
            proof (cases "j = i + sz")
              case True
              with \<open>i < int (length m)\<close> Inr free scan hyps r have "r = i"
                by simp
              with scan_bounded_free [OF scan] True show ?thesis
                by simp
            next
              case False
              with \<open>i < int (length m)\<close> Inr free scan hyps
              have "first_fit_loop m sz (i + j) = Some y"
                by simp
              from IH [OF this] r show ?thesis by blast
            qed
          qed
        qed
      qed
    qed
  qed
qed

lemma next_fit_loop_free:
  assumes "next_fit_loop m sz si i count = Some y"
  shows "\<forall>r c. y = Inr (r, c) \<and> r \<noteq> - 1 \<longrightarrow> free_between m r (r + sz)"
proof (rule next_fit_loop.raw_induct
    [where P = "\<lambda>m sz si i count y.
                 \<forall>r c. y = Inr (r, c) \<and> r \<noteq> - 1 \<longrightarrow> free_between m r (r + sz)",
     OF _ assms], goal_cases)
  case (1 next_fit_loop m sz si i count y)
  note IH = "1"(1) and hyps = "1"(2)
  show ?case
  proof (intro allI impI)
    fix r c assume r: "y = Inr (r, c) \<and> r \<noteq> - 1"
    show "free_between m r (r + sz)"
    proof (cases "count < int (length m)")
      case False
      with hyps r show ?thesis by simp
    next
      case True
      show ?thesis
      proof (cases "bs_test m i")
        case (Inl e)
        with True hyps r show ?thesis by simp
      next
        case (Inr b)
        show ?thesis
        proof (cases b)
          case used: True
          with True Inr hyps
          have "next_fit_loop m sz si (c_rem (i + 1) (int (length m))) (count + 1) = Some y"
            by simp
          from IH [OF this] r show ?thesis by blast
        next
          case free: False
          show ?thesis
          proof (cases "scan_bounded m (i + sz) i")
            case (Inl e)
            with True Inr free hyps r show ?thesis by simp
          next
            case scan: (Inr j)
            show ?thesis
            proof (cases "j = i + sz")
              case True
              with \<open>count < int (length m)\<close> Inr free scan hyps r have "r = i"
                by simp
              with scan_bounded_free [OF scan] True show ?thesis
                by simp
            next
              case False
              with \<open>count < int (length m)\<close> Inr free scan hyps
              have "next_fit_loop m sz si (c_rem (i + j) (int (length m))) (count + j) = Some y"
                by simp
              from IH [OF this] r show ?thesis by blast
            qed
          qed
        qed
      qed
    qed
  qed
qed

lemma best_fit_loop_free:
  "best_fit_loop m sz i min_size ind = Inr r \<Longrightarrow>
   ind \<noteq> - 1 \<longrightarrow> free_between m ind (ind + sz) \<Longrightarrow>
   r \<noteq> - 1 \<longrightarrow> free_between m r (r + sz)"
proof (induction m sz i min_size ind rule: best_fit_loop.induct)
  case (1 m sz i min_size ind)
  show ?case
  proof (cases "i < int (length m)")
    case False
    with "1.prems" show ?thesis
      by (subst (asm) best_fit_loop.simps) simp
  next
    case True
    show ?thesis
    proof (cases "bs_test m i")
      case (Inl e)
      with True "1.prems" show ?thesis
        by (subst (asm) best_fit_loop.simps) simp
    next
      case (Inr b)
      show ?thesis
      proof (cases b)
        case used: True
        with True Inr "1.prems"(1) have "best_fit_loop m sz (i + 1) min_size ind = Inr r"
          by (subst (asm) best_fit_loop.simps) simp
        from "1.IH"(3) [OF True Inr _ this "1.prems"(2)] used show ?thesis
          by simp
      next
        case free: False
        show ?thesis
        proof (cases "scan_free m i")
          case (Inl e)
          with True Inr free "1.prems" show ?thesis
            by (subst (asm) best_fit_loop.simps) simp
        next
          case scan: (Inr j)
          show ?thesis
          proof (cases "i + sz \<le> j \<and> j - i \<le> min_size")
            case fits: True
            with True Inr free scan "1.prems"(1) have rec: "best_fit_loop m sz j (j - i) i = Inr r"
              by (subst (asm) best_fit_loop.simps) simp
            from scan_free_free [OF scan] fits have "free_between m i (i + sz)"
              by (auto intro: free_between_shrink)
            with "1.IH"(1) [OF True Inr free scan fits rec] show ?thesis
              by simp
          next
            case no: False
            with True Inr free scan "1.prems"(1) have rec: "best_fit_loop m sz j min_size ind = Inr r"
              by (subst (asm) best_fit_loop.simps) auto
            from "1.IH"(2) [OF True Inr free scan no rec "1.prems"(2)] show ?thesis .
          qed
        qed
      qed
    qed
  qed
qed

lemma worst_fit_loop_free:
  "worst_fit_loop m sz i max_size ind = Inr r \<Longrightarrow>
   ind \<noteq> - 1 \<longrightarrow> free_between m ind (ind + sz) \<Longrightarrow>
   r \<noteq> - 1 \<longrightarrow> free_between m r (r + sz)"
proof (induction m sz i max_size ind rule: worst_fit_loop.induct)
  case (1 m sz i max_size ind)
  show ?case
  proof (cases "i < int (length m)")
    case False
    with "1.prems" show ?thesis
      by (subst (asm) worst_fit_loop.simps) simp
  next
    case True
    show ?thesis
    proof (cases "bs_test m i")
      case (Inl e)
      with True "1.prems" show ?thesis
        by (subst (asm) worst_fit_loop.simps) simp
    next
      case (Inr b)
      show ?thesis
      proof (cases b)
        case used: True
        with True Inr "1.prems"(1) have "worst_fit_loop m sz (i + 1) max_size ind = Inr r"
          by (subst (asm) worst_fit_loop.simps) simp
        from "1.IH"(3) [OF True Inr _ this "1.prems"(2)] used show ?thesis
          by simp
      next
        case free: False
        show ?thesis
        proof (cases "scan_free m i")
          case (Inl e)
          with True Inr free "1.prems" show ?thesis
            by (subst (asm) worst_fit_loop.simps) simp
        next
          case scan: (Inr j)
          show ?thesis
          proof (cases "i + sz \<le> j \<and> max_size < j - i")
            case fits: True
            with True Inr free scan "1.prems"(1)
            have rec: "worst_fit_loop m sz (i + j) (j - i) i = Inr r"
              by (subst (asm) worst_fit_loop.simps) simp
            from scan_free_free [OF scan] fits have "free_between m i (i + sz)"
              by (auto intro: free_between_shrink)
            with "1.IH"(1) [OF True Inr free scan fits rec] show ?thesis
              by simp
          next
            case no: False
            with True Inr free scan "1.prems"(1)
            have rec: "worst_fit_loop m sz (i + j) max_size ind = Inr r"
              by (subst (asm) worst_fit_loop.simps) auto
            from "1.IH"(2) [OF True Inr free scan no rec "1.prems"(2)] show ?thesis .
          qed
        qed
      qed
    qed
  qed
qed

lemma get_index_free:
  assumes "get_index s sz = Some (Inr (r, s1))" and "r \<noteq> - 1"
  shows "memory_map s1 = memory_map s \<and> file_map s1 = file_map s
         \<and> used_memory s1 = used_memory s
         \<and> free_between (memory_map s) r (r + sz)"
proof (cases "strategy s")
  case FIRST_FIT
  with assms(1) have "first_fit_loop (memory_map s) sz 0 = Some (Inr r)" and "s1 = s"
    by (auto simp: get_index_def first_fit_def split: option.splits sum.splits)
  with first_fit_loop_free [of "memory_map s" sz 0 "Inr r"] assms(2) show ?thesis
    by simp
next
  case BEST_FIT
  with assms(1) have "best_fit_loop (memory_map s) sz 0 INT_MAX (- 1) = Inr r" and "s1 = s"
    by (auto simp: get_index_def best_fit_def split: option.splits sum.splits)
  with best_fit_loop_free [of "memory_map s" sz 0 INT_MAX "- 1" r] assms(2) show ?thesis
    by simp
next
  case WORST_FIT
  with assms(1) have "worst_fit_loop (memory_map s) sz 0 0 (- 1) = Inr r" and "s1 = s"
    by (auto simp: get_index_def worst_fit_def split: option.splits sum.splits)
  with worst_fit_loop_free [of "memory_map s" sz 0 0 "- 1" r] assms(2) show ?thesis
    by simp
next
  case NEXT_FIT
  with assms(1) obtain c where
    "next_fit_loop (memory_map s) sz (start_index s) (start_index s) 0 = Some (Inr (r, c))"
    and "s1 = s\<lparr>start_index := c\<rparr>"
    by (auto simp: get_index_def next_fit_def split: option.splits sum.splits)
  with next_fit_loop_free [of "memory_map s" sz "start_index s" "start_index s" 0 "Inr (r, c)"]
    assms(2) show ?thesis
    by simp
qed

text \<open>
  Every successful next-fit search that returns \<open>r\<close> leaves the cursor at
  \<open>(r + size + r) % N\<close>.
\<close>

lemma next_fit_loop_cursor:
  assumes "next_fit_loop m sz si i count = Some y"
  shows "\<forall>r c. y = Inr (r, c) \<and> r \<noteq> - 1 \<longrightarrow> c = c_rem (r + sz + r) (int (length m))"
proof (rule next_fit_loop.raw_induct
    [where P = "\<lambda>m sz si i count y.
                 \<forall>r c. y = Inr (r, c) \<and> r \<noteq> - 1 \<longrightarrow> c = c_rem (r + sz + r) (int (length m))",
     OF _ assms], goal_cases)
  case (1 next_fit_loop m sz si i count y)
  note IH = "1"(1) and hyps = "1"(2)
  show ?case
  proof (intro allI impI)
    fix r c assume r: "y = Inr (r, c) \<and> r \<noteq> - 1"
    show "c = c_rem (r + sz + r) (int (length m))"
    proof (cases "count < int (length m)")
      case False
      with hyps r show ?thesis by simp
    next
      case True
      show ?thesis
      proof (cases "bs_test m i")
        case (Inl e)
        with True hyps r show ?thesis by simp
      next
        case (Inr b)
        show ?thesis
        proof (cases b)
          case used: True
          with True Inr hyps
          have "next_fit_loop m sz si (c_rem (i + 1) (int (length m))) (count + 1) = Some y"
            by simp
          from IH [OF this] r show ?thesis by blast
        next
          case free: False
          show ?thesis
          proof (cases "scan_bounded m (i + sz) i")
            case (Inl e)
            with True Inr free hyps r show ?thesis by simp
          next
            case scan: (Inr j)
            show ?thesis
            proof (cases "j = i + sz")
              case True
              with \<open>count < int (length m)\<close> Inr free scan hyps r show ?thesis
                by auto
            next
              case False
              with \<open>count < int (length m)\<close> Inr free scan hyps
              have "next_fit_loop m sz si (c_rem (i + j) (int (length m))) (count + j) = Some y"
                by simp
              from IH [OF this] r show ?thesis by blast
            qed
          qed
        qed
      qed
    qed
  qed
qed

lemma next_fit_success_cursor:
  "next_fit m si sz = Some (Inr (r, c)) \<Longrightarrow> r \<noteq> - 1 \<Longrightarrow>
   c = c_rem (r + sz + r) (int (length m))"
  using next_fit_loop_cursor [of m sz si si 0 "Inr (r, c)"] by (simp add: next_fit_def)

lemma free_between_set_then_reset:
  assumes "set_loop m base n 0 = Inr m1" and "free_between m base (base + n)"
  shows "reset_loop m1 base n 0 = Inr m"
  using assms by (intro set_then_reset) (auto simp: free_between_def)

section \<open>Create followed by delete\<close>

lemma cfs_create_delete:
  assumes "cfs_create s f k = Some (Inr (Done, s1))"
  shows "\<exists>s2. cfs_delete_file s1 f = Inr (Done, s2) \<and> memory_map s2 = memory_map s"
proof -
  from assms obtain start s' m1 where
    gi: "get_index s k = Some (Inr (start, s'))" and ne: "start \<noteq> - 1"
    and set: "set_loop (memory_map s') start k 0 = Inr m1"
    and s1: "s1 = s'\<lparr>memory_map := m1, used_memory := used_memory s' + k,
                    file_map := (file_map s')(f \<mapsto> \<lparr>filesize = k, start_block = start\<rparr>)\<rparr>"
    by (auto simp: cfs_create_def split: if_splits option.splits sum.splits prod.splits)
  from get_index_free [OF gi ne]
  have mm: "memory_map s' = memory_map s" and free: "free_between (memory_map s) start (start + k)"
    by auto
  from free_between_set_then_reset [of "memory_map s" start k m1] set mm free
  have "reset_loop m1 start k 0 = Inr (memory_map s)"
    by simp
  then show ?thesis
    by (simp add: cfs_delete_file_def s1)
qed

lemma mcfs_create_delete:
  assumes "mcfs_create s f k = Some (Inr (Done, s1))"
  shows "\<exists>s2. mcfs_delete_file s1 f = Inr (Done, s2) \<and> memory_map s2 = memory_map s"
proof -
  from assms obtain start s' m1 where
    gi: "get_index s k = Some (Inr (start, s'))" and ne: "start \<noteq> - 1"
    and set: "set_loop (memory_map s') start k 0 = Inr m1"
    and s1: "s1 = s'\<lparr>memory_map := m1, used_memory := used_memory s' + k,
                    file_map := (file_map s')(f \<mapsto>
                      \<lparr>mc_filesize = k, mc_start = [\<lparr>mb_start_block = start, mb_size = k\<rparr>]\<rparr>)\<rparr>"
    by (auto simp: mcfs_create_def split: if_splits option.splits sum.splits prod.splits)
  from get_index_free [OF gi ne]
  have mm: "memory_map s' = memory_map s" and free: "free_between (memory_map s) start (start + k)"
    by auto
  from free_between_set_then_reset [of "memory_map s" start k m1] set mm free
  have "reset_loop m1 start k 0 = Inr (memory_map s)"
    by simp
  then show ?thesis
    by (simp add: mcfs_delete_file_def s1)
qed

lemma ifs_take_result:
  "ifs_take bi fl sz i = Inr (bi', fl') \<Longrightarrow>
     nat (sz - i) \<le> length fl \<and> bi' = bi @ take (nat (sz - i)) fl \<and> fl' = drop (nat (sz - i)) fl"
proof (induction bi fl sz i rule: ifs_take.induct)
  case (1 bi fl sz i)
  show ?case
  proof (cases "i < sz")
    case False
    with "1.prems" show ?thesis
      by (subst (asm) ifs_take.simps) simp
  next
    case True
    with "1.prems" obtain b fl1 where fl: "fl = b # fl1"
      and rec: "ifs_take (bi @ [b]) fl1 sz (i + 1) = Inr (bi', fl')"
      by (subst (asm) ifs_take.simps) (auto split: list.splits)
    from True have n: "nat (sz - i) = Suc (nat (sz - (i + 1)))"
      by simp
    from "1.IH" [OF True fl rec] show ?thesis
      by (simp add: fl n)
  qed
qed

lemma ifs_create_delete:
  assumes "ifs_create s f k = Inr (Done, s1)"
  shows "\<exists>s2. ifs_delete_file s1 f = Inr (Done, s2)
           \<and> i_free_list s2 = drop (nat k) (i_free_list s) @ take (nat k) (i_free_list s)"
proof -
  from assms obtain bi fl where
    take: "ifs_take [] (i_free_list s) k 0 = Inr (bi, fl)"
    and s1: "s1 = s\<lparr>i_free_list := fl, i_used_memory := i_used_memory s + k,
                   i_file_map := (i_file_map s)(f \<mapsto> \<lparr>i_filesize = k, block_indices = bi\<rparr>)\<rparr>"
    by (auto simp: ifs_create_def split: if_splits sum.splits prod.splits)
  from ifs_take_result [OF take]
  have "bi = take (nat k) (i_free_list s)" "fl = drop (nat k) (i_free_list s)"
    by auto
  then show ?thesis
    by (simp add: ifs_delete_file_def s1)
qed

lemma is_chain_update_outside:
  "is_chain nx p cs \<Longrightarrow> c \<notin> set cs \<Longrightarrow> is_chain (nx[c := v]) p cs"
  by (induction cs arbitrary: p) auto

lemma lfs_unlink_chain:
  "is_chain nx p cs \<Longrightarrow> distinct cs \<Longrightarrow>
   \<exists>nx'. lfs_unlink nx q p = Inr (nx', q @ cs) \<and> length nx' = length nx
     \<and> (\<forall>b < length nx. nx' ! b = (if b \<in> set cs then None else nx ! b))"
proof (induction cs arbitrary: nx p q)
  case Nil
  then show ?case
    by (subst lfs_unlink.simps) simp
next
  case (Cons c cs)
  then have p: "p = Some c" and c: "c < length nx" and rest: "is_chain nx (nx ! c) cs"
    and fresh: "c \<notin> set cs" and dist: "distinct cs"
    by auto
  from rest fresh have "is_chain (nx[c := None]) (nx ! c) cs"
    by (rule is_chain_update_outside)
  from Cons.IH [OF this dist, of "q @ [c]"] obtain nx' where
    rec: "lfs_unlink (nx[c := None]) (q @ [c]) (nx ! c) = Inr (nx', (q @ [c]) @ cs)"
    and len: "length nx' = length (nx[c := None])"
    and nth: "\<forall>b < length (nx[c := None]). nx' ! b = (if b \<in> set cs then None else nx[c := None] ! b)"
    by blast
  have "lfs_unlink nx q p = Inr (nx', q @ c # cs)"
    using p c rec by (subst lfs_unlink.simps) simp
  moreover have "\<forall>b < length nx. nx' ! b = (if b \<in> set (c # cs) then None else nx ! b)"
    using nth c by (auto simp: nth_list_update)
  ultimately show ?case
    using len by auto
qed

lemma lfs_link_chain:
  "lfs_link nx fl start sz i = Inr (nx', fl') \<Longrightarrow>
   distinct (start # fl) \<Longrightarrow>
   \<forall>b \<in> set (start # fl). b < length nx \<and> nx ! b = None \<Longrightarrow>
     nat (sz - i) \<le> length fl
     \<and> fl' = drop (nat (sz - i)) fl
     \<and> is_chain nx' (Some start) (start # take (nat (sz - i)) fl)
     \<and> length nx' = length nx
     \<and> (\<forall>b. b \<notin> set (start # take (nat (sz - i)) fl) \<longrightarrow> nx' ! b = nx ! b)"
proof (induction nx fl start sz i rule: lfs_link.induct)
  case (1 nx fl start sz i)
  show ?case
  proof (cases "i < sz")
    case False
    with "1.prems"(1) have "nx' = nx" "fl' = fl"
      by (subst (asm) lfs_link.simps, simp)+
    with False "1.prems"(3) show ?thesis
      by simp
  next
    case True
    with "1.prems"(1) obtain c fl1 where fl: "fl = c # fl1" and st: "start < length nx"
      and rec: "lfs_link (nx[start := Some c]) fl1 c sz (i + 1) = Inr (nx', fl')"
      by (subst (asm) lfs_link.simps) (auto split: list.splits if_splits)
    let ?n = "nat (sz - (i + 1))"
    from True have n: "nat (sz - i) = Suc ?n"
      by simp
    have d: "distinct (c # fl1)"
      using "1.prems"(2) fl by simp
    have ne: "start \<noteq> c" "start \<notin> set fl1"
      using "1.prems"(2) fl by auto
    have none: "\<forall>b \<in> set (c # fl1). b < length (nx[start := Some c]) \<and> nx[start := Some c] ! b = None"
      using "1.prems"(3) fl ne by (auto simp: nth_list_update)
    from "1.IH" [OF True fl st rec d none]
    have le: "?n \<le> length fl1" and fl': "fl' = drop ?n fl1"
      and ch: "is_chain nx' (Some c) (c # take ?n fl1)"
      and len: "length nx' = length (nx[start := Some c])"
      and frame: "\<forall>b. b \<notin> set (c # take ?n fl1) \<longrightarrow> nx' ! b = nx[start := Some c] ! b"
      by auto
    have out: "start \<notin> set (c # take ?n fl1)"
      using ne by (auto dest: in_set_takeD)
    with frame st have "nx' ! start = Some c"
      by simp
    with ch st len have "is_chain nx' (Some start) (start # c # take ?n fl1)"
      by simp
    moreover have "\<forall>b. b \<notin> set (start # c # take ?n fl1) \<longrightarrow> nx' ! b = nx ! b"
      using frame by (auto simp: nth_list_update)
    ultimately show ?thesis
      using le fl' len by (simp add: fl n)
  qed
qed

lemma lfs_create_delete:
  assumes wf: "lfs_wf s" and k: "1 \<le> k"
      and cr: "lfs_create s f k = Inr (Done, s1)"
  shows "\<exists>s2. lfs_delete_file s1 f = Inr (Done, s2)
           \<and> l_free_list s2 = drop (nat k) (l_free_list s) @ take (nat k) (l_free_list s)
           \<and> l_next s2 = l_next s"
proof -
  from cr obtain start fl0 nx1 fl1 where
    fl: "l_free_list s = start # fl0"
    and link: "lfs_link (l_next s) fl0 start k 1 = Inr (nx1, fl1)"
    and s1: "s1 = s\<lparr>l_free_list := fl1, l_next := nx1, l_used_memory := l_used_memory s + k,
                   l_file_map := (l_file_map s)(f \<mapsto> \<lparr>l_filesize = k, l_start_block = Some start\<rparr>)\<rparr>"
    by (auto simp: lfs_create_def split: if_splits list.splits sum.splits prod.splits)
  let ?n = "nat (k - 1)"
  let ?cs = "start # take ?n fl0"
  from wf fl have d: "distinct (start # fl0)"
    and none: "\<forall>b \<in> set (start # fl0). b < length (l_next s) \<and> l_next s ! b = None"
    by (auto simp: lfs_wf_def)
  from lfs_link_chain [OF link d none]
  have fl1: "fl1 = drop ?n fl0" and ch: "is_chain nx1 (Some start) ?cs"
    and len1: "length nx1 = length (l_next s)"
    and frame: "\<forall>b. b \<notin> set ?cs \<longrightarrow> nx1 ! b = l_next s ! b"
    by auto
  from d have dcs: "distinct ?cs"
    by (auto dest: in_set_takeD)
  from lfs_unlink_chain [OF ch dcs, of fl1] obtain nx2 where
    un: "lfs_unlink nx1 fl1 (Some start) = Inr (nx2, fl1 @ ?cs)"
    and len2: "length nx2 = length nx1"
    and nth2: "\<forall>b < length nx1. nx2 ! b = (if b \<in> set ?cs then None else nx1 ! b)"
    by blast
  from k have nk: "nat k = Suc ?n"
    by simp
  have queue: "fl1 @ ?cs = drop (nat k) (l_free_list s) @ take (nat k) (l_free_list s)"
    by (simp add: fl fl1 nk)
  have "nx2 = l_next s"
  proof (rule nth_equalityI)
    show "length nx2 = length (l_next s)"
      using len1 len2 by simp
    fix b assume "b < length nx2"
    then have b: "b < length nx1"
      using len2 by simp
    show "nx2 ! b = l_next s ! b"
    proof (cases "b \<in> set ?cs")
      case True
      then have "b \<in> set (start # fl0)"
        by (auto dest: in_set_takeD)
      with none have "l_next s ! b = None"
        by blast
      with True nth2 b show ?thesis by simp
    next
      case False
      with nth2 b frame show ?thesis by simp
    qed
  qed
  with un queue show ?thesis
    by (simp add: lfs_delete_file_def s1)
qed

lemma lfs_wf_new: "lfs_wf (new_lfs N)"
  by (simp add: lfs_wf_def new_lfs_def)

text \<open>
  \<open>lfs_inv\<close> holds in the new file system and is kept by create and delete_file; it
  implies \<open>lfs_wf\<close>.
\<close>

lemma is_chain_cong:
  "length nx' = length nx \<Longrightarrow> \<forall>b \<in> set cs. nx' ! b = nx ! b \<Longrightarrow>
   is_chain nx' p cs = is_chain nx p cs"
  by (induction cs arbitrary: p) auto

lemma is_chain_bound: "is_chain nx p cs \<Longrightarrow> b \<in> set cs \<Longrightarrow> b < length nx"
  by (induction cs arbitrary: p) auto

lemma lfs_inv_wf: "lfs_inv s \<Longrightarrow> lfs_wf s"
  by (simp add: lfs_inv_def)

lemma lfs_inv_new: "lfs_inv (new_lfs N)"
  by (simp add: lfs_inv_def lfs_wf_def new_lfs_def)

lemma lfs_inv_create:
  assumes inv: "lfs_inv s" and cr: "lfs_create s f k = Inr (st, s1)"
  shows "lfs_inv s1"
proof (cases "st = Done")
  case False
  with cr have "s1 = s"
    by (auto simp: lfs_create_def split: if_splits list.splits sum.splits prod.splits)
  with inv show ?thesis
    by simp
next
  case True
  with cr obtain start fl0 nx1 fl1 where
    fresh: "l_file_map s f = None"
    and fl: "l_free_list s = start # fl0"
    and link: "lfs_link (l_next s) fl0 start k 1 = Inr (nx1, fl1)"
    and s1: "s1 = s\<lparr>l_free_list := fl1, l_next := nx1, l_used_memory := l_used_memory s + k,
                   l_file_map := (l_file_map s)(f \<mapsto> \<lparr>l_filesize = k, l_start_block = Some start\<rparr>)\<rparr>"
    by (auto simp: lfs_create_def split: if_splits list.splits sum.splits prod.splits)
  let ?n = "nat (k - 1)"
  let ?cs = "start # take ?n fl0"
  from lfs_inv_wf [OF inv] fl have d: "distinct (start # fl0)"
    and none: "\<forall>b \<in> set (start # fl0). b < length (l_next s) \<and> l_next s ! b = None"
    by (auto simp: lfs_wf_def)
  from lfs_link_chain [OF link d none]
  have fl1: "fl1 = drop ?n fl0" and ch: "is_chain nx1 (Some start) ?cs"
    and len1: "length nx1 = length (l_next s)"
    and frame: "\<forall>b. b \<notin> set ?cs \<longrightarrow> nx1 ! b = l_next s ! b"
    by auto
  have sub_cs: "set ?cs \<subseteq> set (start # fl0)"
    by (auto dest: in_set_takeD)
  have sub_fl1: "set fl1 \<subseteq> set fl0"
    by (auto simp: fl1 dest: in_set_dropD)
  have dcs: "distinct ?cs"
    using d by (auto dest: in_set_takeD)
  have dfl1: "distinct fl1"
    using d by (simp add: fl1)
  have disj: "set ?cs \<inter> set fl1 = {}"
  proof -
    from d have "distinct (take ?n fl0 @ drop ?n fl0)" and st: "start \<notin> set fl0"
      by simp_all
    then have "set (take ?n fl0) \<inter> set (drop ?n fl0) = {}"
      unfolding distinct_append by (elim conjE)
    with st sub_fl1 show ?thesis
      by (auto simp: fl1)
  qed
  from inv have "\<exists>ch0. \<forall>n fp. l_file_map s n = Some fp \<longrightarrow>
             is_chain (l_next s) (l_start_block fp) (ch0 n)
             \<and> distinct (ch0 n)
             \<and> set (ch0 n) \<inter> set (l_free_list s) = {}
             \<and> (\<forall>n' fp'. n' \<noteq> n \<and> l_file_map s n' = Some fp' \<longrightarrow>
                   set (ch0 n) \<inter> set (ch0 n') = {})"
    unfolding lfs_inv_def by (elim conjE)
  then obtain ch0 where
    ch0: "\<forall>n fp. l_file_map s n = Some fp \<longrightarrow>
             is_chain (l_next s) (l_start_block fp) (ch0 n)
             \<and> distinct (ch0 n)
             \<and> set (ch0 n) \<inter> set (l_free_list s) = {}
             \<and> (\<forall>n' fp'. n' \<noteq> n \<and> l_file_map s n' = Some fp' \<longrightarrow>
                   set (ch0 n) \<inter> set (ch0 n') = {})"
    ..
  have wf1: "lfs_wf s1"
    unfolding lfs_wf_def
  proof (intro conjI ballI)
    show "distinct (l_free_list s1)"
      using dfl1 by (simp add: s1)
    fix b assume "b \<in> set (l_free_list s1)"
    then have b: "b \<in> set fl1"
      by (simp add: s1)
    with disj have "b \<notin> set ?cs"
      by blast
    with frame have "nx1 ! b = l_next s ! b"
      by blast
    moreover from b sub_fl1 have "b \<in> set (start # fl0)"
      by auto
    ultimately show "b < length (l_next s1)" "l_next s1 ! b = None"
      using none len1 by (auto simp: s1)
  qed
  let ?ch = "ch0(f := ?cs)"
  have old: "is_chain nx1 (l_start_block fp) (ch0 n) \<and> distinct (ch0 n)
             \<and> set (ch0 n) \<inter> set fl1 = {} \<and> set (ch0 n) \<inter> set ?cs = {}"
    if "l_file_map s n = Some fp" for n fp
  proof -
    from ch0 that have c: "is_chain (l_next s) (l_start_block fp) (ch0 n)" "distinct (ch0 n)"
      "set (ch0 n) \<inter> set (start # fl0) = {}"
      by (auto simp: fl)
    from c(3) sub_cs have out: "set (ch0 n) \<inter> set ?cs = {}"
      by blast
    with frame have "\<forall>b \<in> set (ch0 n). nx1 ! b = l_next s ! b"
      by blast
    from is_chain_cong [OF len1 this] c(1) have "is_chain nx1 (l_start_block fp) (ch0 n)"
      by simp
    moreover from c(3) sub_fl1 have "set (ch0 n) \<inter> set fl1 = {}"
      by auto
    ultimately show ?thesis
      using c(2) out by simp
  qed
  have "\<forall>n fp. l_file_map s1 n = Some fp \<longrightarrow>
          is_chain (l_next s1) (l_start_block fp) (?ch n)
          \<and> distinct (?ch n)
          \<and> set (?ch n) \<inter> set (l_free_list s1) = {}
          \<and> (\<forall>n' fp'. n' \<noteq> n \<and> l_file_map s1 n' = Some fp' \<longrightarrow>
                set (?ch n) \<inter> set (?ch n') = {})"
  proof (intro allI impI)
    fix n fp assume n: "l_file_map s1 n = Some fp"
    show "is_chain (l_next s1) (l_start_block fp) (?ch n)
          \<and> distinct (?ch n)
          \<and> set (?ch n) \<inter> set (l_free_list s1) = {}
          \<and> (\<forall>n' fp'. n' \<noteq> n \<and> l_file_map s1 n' = Some fp' \<longrightarrow>
                set (?ch n) \<inter> set (?ch n') = {})"
    proof (cases "n = f")
      case True
      with n have "l_start_block fp = Some start"
        by (auto simp: s1)
      moreover have "set ?cs \<inter> set (ch0 n') = {}" if "l_file_map s n' = Some fp'" for n' fp'
        using old [OF that] by blast
      ultimately show ?thesis
        using True ch dcs disj by (auto simp: s1)
    next
      case False
      with n have n0: "l_file_map s n = Some fp"
        by (simp add: s1)
      from ch0 n0 have pair: "\<forall>n' fp'. n' \<noteq> n \<and> l_file_map s n' = Some fp' \<longrightarrow>
                   set (ch0 n) \<inter> set (ch0 n') = {}"
        by blast
      from old [OF n0] False pair show ?thesis
        by (auto simp: s1)
    qed
  qed
  then have "\<exists>ch. \<forall>n fp. l_file_map s1 n = Some fp \<longrightarrow>
          is_chain (l_next s1) (l_start_block fp) (ch n)
          \<and> distinct (ch n)
          \<and> set (ch n) \<inter> set (l_free_list s1) = {}
          \<and> (\<forall>n' fp'. n' \<noteq> n \<and> l_file_map s1 n' = Some fp' \<longrightarrow>
                set (ch n) \<inter> set (ch n') = {})"
    by (rule exI [of _ ?ch])
  with wf1 show ?thesis
    unfolding lfs_inv_def by (rule conjI)
qed

lemma lfs_inv_delete_file:
  assumes inv: "lfs_inv s" and del: "lfs_delete_file s f = Inr (st, s1)"
  shows "lfs_inv s1"
proof (cases "st = Done")
  case False
  with del have "s1 = s"
    by (auto simp: lfs_delete_file_def split: option.splits sum.splits prod.splits)
  with inv show ?thesis
    by simp
next
  case True
  with del obtain fp nx2 fl2 where
    fp: "l_file_map s f = Some fp"
    and un: "lfs_unlink (l_next s) (l_free_list s) (l_start_block fp) = Inr (nx2, fl2)"
    and s1: "s1 = s\<lparr>l_free_list := fl2, l_next := nx2,
                   l_used_memory := l_used_memory s - l_filesize fp,
                   l_file_map := (l_file_map s)(f := None)\<rparr>"
    by (auto simp: lfs_delete_file_def split: option.splits sum.splits prod.splits)
  from inv have "\<exists>ch0. \<forall>n fp. l_file_map s n = Some fp \<longrightarrow>
             is_chain (l_next s) (l_start_block fp) (ch0 n)
             \<and> distinct (ch0 n)
             \<and> set (ch0 n) \<inter> set (l_free_list s) = {}
             \<and> (\<forall>n' fp'. n' \<noteq> n \<and> l_file_map s n' = Some fp' \<longrightarrow>
                   set (ch0 n) \<inter> set (ch0 n') = {})"
    unfolding lfs_inv_def by (elim conjE)
  then obtain ch0 where
    ch0: "\<forall>n fp. l_file_map s n = Some fp \<longrightarrow>
             is_chain (l_next s) (l_start_block fp) (ch0 n)
             \<and> distinct (ch0 n)
             \<and> set (ch0 n) \<inter> set (l_free_list s) = {}
             \<and> (\<forall>n' fp'. n' \<noteq> n \<and> l_file_map s n' = Some fp' \<longrightarrow>
                   set (ch0 n) \<inter> set (ch0 n') = {})"
    ..
  let ?cs = "ch0 f"
  from ch0 fp have ch: "is_chain (l_next s) (l_start_block fp) ?cs" and dcs: "distinct ?cs"
    and disj: "set ?cs \<inter> set (l_free_list s) = {}"
    by auto
  from lfs_inv_wf [OF inv] have dfl: "distinct (l_free_list s)"
    and none: "\<forall>b \<in> set (l_free_list s). b < length (l_next s) \<and> l_next s ! b = None"
    by (auto simp: lfs_wf_def)
  from lfs_unlink_chain [OF ch dcs, of "l_free_list s"] un
  have fl2: "fl2 = l_free_list s @ ?cs" and len2: "length nx2 = length (l_next s)"
    and nth2: "\<forall>b < length (l_next s). nx2 ! b = (if b \<in> set ?cs then None else l_next s ! b)"
    by auto
  have wf1: "lfs_wf s1"
    unfolding lfs_wf_def
  proof (intro conjI ballI)
    show "distinct (l_free_list s1)"
      using dfl dcs disj by (auto simp: s1 fl2)
    fix b assume "b \<in> set (l_free_list s1)"
    then have "b \<in> set (l_free_list s) \<or> b \<in> set ?cs"
      by (auto simp: s1 fl2)
    then have b: "b < length (l_next s)"
      using none is_chain_bound [OF ch] by blast
    then show "b < length (l_next s1)"
      using len2 by (simp add: s1)
    show "l_next s1 ! b = None"
    proof (cases "b \<in> set ?cs")
      case True
      with nth2 b show ?thesis
        by (simp add: s1)
    next
      case False
      with \<open>b \<in> set (l_free_list s) \<or> b \<in> set ?cs\<close> none have "l_next s ! b = None"
        by blast
      with False nth2 b show ?thesis
        by (simp add: s1)
    qed
  qed
  have "\<forall>n fp. l_file_map s1 n = Some fp \<longrightarrow>
          is_chain (l_next s1) (l_start_block fp) (ch0 n)
          \<and> distinct (ch0 n)
          \<and> set (ch0 n) \<inter> set (l_free_list s1) = {}
          \<and> (\<forall>n' fp'. n' \<noteq> n \<and> l_file_map s1 n' = Some fp' \<longrightarrow>
                set (ch0 n) \<inter> set (ch0 n') = {})"
  proof (intro allI impI)
    fix n fp' assume n: "l_file_map s1 n = Some fp'"
    then have nf: "n \<noteq> f" and n0: "l_file_map s n = Some fp'"
      by (auto simp: s1 split: if_splits)
    from ch0 n0 have c: "is_chain (l_next s) (l_start_block fp') (ch0 n)" "distinct (ch0 n)"
      "set (ch0 n) \<inter> set (l_free_list s) = {}"
      and pair: "\<forall>n' fp'. n' \<noteq> n \<and> l_file_map s n' = Some fp' \<longrightarrow>
                   set (ch0 n) \<inter> set (ch0 n') = {}"
      by auto
    from pair [rule_format, of f fp] nf fp have out: "set (ch0 n) \<inter> set ?cs = {}"
      by simp
    have "\<forall>b \<in> set (ch0 n). nx2 ! b = l_next s ! b"
    proof
      fix b assume b: "b \<in> set (ch0 n)"
      with is_chain_bound [OF c(1)] have "b < length (l_next s)"
        by blast
      with nth2 out b show "nx2 ! b = l_next s ! b"
        by auto
    qed
    from is_chain_cong [OF len2 this] c(1) have "is_chain nx2 (l_start_block fp') (ch0 n)"
      by simp
    with c(2,3) out pair show
      "is_chain (l_next s1) (l_start_block fp') (ch0 n)
       \<and> distinct (ch0 n)
       \<and> set (ch0 n) \<inter> set (l_free_list s1) = {}
       \<and> (\<forall>n' fp'. n' \<noteq> n \<and> l_file_map s1 n' = Some fp' \<longrightarrow>
             set (ch0 n) \<inter> set (ch0 n') = {})"
      by (auto simp: s1 fl2 split: if_splits)
  qed
  then have "\<exists>ch. \<forall>n fp. l_file_map s1 n = Some fp \<longrightarrow>
          is_chain (l_next s1) (l_start_block fp) (ch n)
          \<and> distinct (ch n)
          \<and> set (ch n) \<inter> set (l_free_list s1) = {}
          \<and> (\<forall>n' fp'. n' \<noteq> n \<and> l_file_map s1 n' = Some fp' \<longrightarrow>
                set (ch n) \<inter> set (ch n') = {})"
    by (rule exI [of _ ch0])
  with wf1 show ?thesis
    unfolding lfs_inv_def by (rule conjI)
qed

section \<open>Create followed by delete, all four allocators\<close>

text \<open>
  C9 as stated fails for the free-block queue: LinkedFileSystem of 4 blocks, create of 2
  blocks and delete. The queue is \<open>[0, 1, 2, 3]\<close> before and \<open>[2, 3, 0, 1]\<close> after.
\<close>

theorem lfs_create_delete_order_counterexample:
  "\<exists>s1 s2. lfs_create (new_lfs 4) ''a'' 2 = Inr (Done, s1)
      \<and> lfs_delete_file s1 ''a'' = Inr (Done, s2)
      \<and> l_free_list (new_lfs 4) = [0, 1, 2, 3]
      \<and> l_free_list s2 = [2, 3, 0, 1]"
proof -
  let ?s1 = "\<lparr>l_free_list = [2, 3], l_next = [Some 1, None, None, None],
              l_file_map = [''a'' \<mapsto> \<lparr>l_filesize = 2, l_start_block = Some 0\<rparr>],
              l_used_memory = 2\<rparr>"
  let ?s2 = "\<lparr>l_free_list = [2, 3, 0, 1], l_next = [None, None, None, None],
              l_file_map = Map.empty, l_used_memory = 0\<rparr>"
  have "lfs_create (new_lfs 4) ''a'' 2 = Inr (Done, ?s1)"
    by (simp add: lfs_create_def new_lfs_def to_size_t_def lfs_link.simps upt_rec eval_nat_numeral)
  moreover have "lfs_delete_file ?s1 ''a'' = Inr (Done, ?s2)"
    by (simp add: lfs_delete_file_def lfs_unlink.simps)
  moreover have "l_free_list (new_lfs 4) = [0, 1, 2, 3]"
    by (simp add: new_lfs_def upt_rec eval_nat_numeral)
  ultimately show ?thesis
    by (intro exI [of _ ?s1] exI [of _ ?s2]) simp
qed

text \<open>
  C9, as amended. A create that succeeds, followed by the delete of the same file,
  \<^item> restores the block map of a ContiguousFileSystem and of a
    ModifiedContiguousFileSystem exactly;
  \<^item> leaves the free list of an IndexedFileSystem, and of a LinkedFileSystem whose
    free list is well formed (\<open>lfs_wf\<close>) when the size is at least 1, with the same
    blocks in rotated order: the first \<open>k\<close> blocks of the list before the create are
    its last \<open>k\<close> blocks after the delete. The \<^verbatim>\<open>next\<close> members of the linked block
    objects are restored exactly.
\<close>

theorem create_delete_round_trip:
  "(cfs_create cs f k = Some (Inr (Done, cs1)) \<longrightarrow>
      (\<exists>cs2. cfs_delete_file cs1 f = Inr (Done, cs2) \<and> memory_map cs2 = memory_map cs))
   \<and> (mcfs_create ms f k = Some (Inr (Done, ms1)) \<longrightarrow>
      (\<exists>ms2. mcfs_delete_file ms1 f = Inr (Done, ms2) \<and> memory_map ms2 = memory_map ms))
   \<and> (lfs_wf ls \<and> 1 \<le> k \<and> lfs_create ls f k = Inr (Done, ls1) \<longrightarrow>
      (\<exists>ls2. lfs_delete_file ls1 f = Inr (Done, ls2)
         \<and> l_free_list ls2 = drop (nat k) (l_free_list ls) @ take (nat k) (l_free_list ls)
         \<and> l_next ls2 = l_next ls))
   \<and> (ifs_create xs f k = Inr (Done, xs1) \<longrightarrow>
      (\<exists>xs2. ifs_delete_file xs1 f = Inr (Done, xs2)
         \<and> i_free_list xs2 = drop (nat k) (i_free_list xs) @ take (nat k) (i_free_list xs)))"
  using cfs_create_delete [of cs f k cs1] mcfs_create_delete [of ms f k ms1]
    lfs_create_delete [of ls k f ls1] ifs_create_delete [of xs f k xs1]
  by blast

theorem create_delete_round_trip_witness:
  "cfs_create (new_fs 4 BEST_FIT) ''a'' 2
     = Some (Inr (Done,
         \<lparr>memory_map = [True, True, False, False],
          file_map = [''a'' \<mapsto> \<lparr>filesize = 2, start_block = 0\<rparr>],
          start_index = 0, strategy = BEST_FIT, used_memory = 2\<rparr>))
   \<and> (\<exists>cs2. cfs_delete_file
         \<lparr>memory_map = [True, True, False, False],
          file_map = [''a'' \<mapsto> \<lparr>filesize = 2, start_block = 0\<rparr>],
          start_index = 0, strategy = BEST_FIT, used_memory = 2\<rparr> ''a'' = Inr (Done, cs2)
        \<and> memory_map cs2 = memory_map (new_fs 4 BEST_FIT :: cfile contiguous_fs))
   \<and> mcfs_create (new_fs 4 FIRST_FIT) ''a'' 2
     = Some (Inr (Done,
         \<lparr>memory_map = [True, True, False, False],
          file_map = [''a'' \<mapsto>
            \<lparr>mc_filesize = 2, mc_start = [\<lparr>mb_start_block = 0, mb_size = 2\<rparr>]\<rparr>],
          start_index = 0, strategy = FIRST_FIT, used_memory = 2\<rparr>))
   \<and> (\<exists>ms2. mcfs_delete_file
         \<lparr>memory_map = [True, True, False, False],
          file_map = [''a'' \<mapsto>
            \<lparr>mc_filesize = 2, mc_start = [\<lparr>mb_start_block = 0, mb_size = 2\<rparr>]\<rparr>],
          start_index = 0, strategy = FIRST_FIT, used_memory = 2\<rparr> ''a'' = Inr (Done, ms2)
        \<and> memory_map ms2 = memory_map (new_fs 4 FIRST_FIT :: mfile contiguous_fs))
   \<and> lfs_wf (new_lfs 4) \<and> (1::int) \<le> 2
   \<and> lfs_create (new_lfs 4) ''a'' 2
     = Inr (Done,
         \<lparr>l_free_list = [2, 3], l_next = [Some 1, None, None, None],
          l_file_map = [''a'' \<mapsto> \<lparr>l_filesize = 2, l_start_block = Some 0\<rparr>],
          l_used_memory = 2\<rparr>)
   \<and> (\<exists>ls2. lfs_delete_file
         \<lparr>l_free_list = [2, 3], l_next = [Some 1, None, None, None],
          l_file_map = [''a'' \<mapsto> \<lparr>l_filesize = 2, l_start_block = Some 0\<rparr>],
          l_used_memory = 2\<rparr> ''a'' = Inr (Done, ls2)
        \<and> l_free_list ls2 = [2, 3, 0, 1]
        \<and> l_next ls2 = l_next (new_lfs 4))
   \<and> ifs_create (new_ifs 4) ''a'' 2
     = Inr (Done,
         \<lparr>i_file_map = [''a'' \<mapsto> \<lparr>i_filesize = 2, block_indices = [0, 1]\<rparr>],
          i_free_list = [2, 3], i_used_memory = 2\<rparr>)
   \<and> (\<exists>xs2. ifs_delete_file
         \<lparr>i_file_map = [''a'' \<mapsto> \<lparr>i_filesize = 2, block_indices = [0, 1]\<rparr>],
          i_free_list = [2, 3], i_used_memory = 2\<rparr> ''a'' = Inr (Done, xs2)
        \<and> i_free_list xs2 = [2, 3, 0, 1])"
proof -
  let ?cs1 = "\<lparr>memory_map = [True, True, False, False],
               file_map = [''a'' \<mapsto> \<lparr>filesize = 2, start_block = 0\<rparr>],
               start_index = 0, strategy = BEST_FIT, used_memory = 2\<rparr>"
  let ?ms1 = "\<lparr>memory_map = [True, True, False, False],
               file_map = [''a'' \<mapsto>
                 \<lparr>mc_filesize = 2, mc_start = [\<lparr>mb_start_block = 0, mb_size = 2\<rparr>]\<rparr>],
               start_index = 0, strategy = FIRST_FIT, used_memory = 2\<rparr>"
  let ?ls1 = "\<lparr>l_free_list = [2, 3], l_next = [Some 1, None, None, None],
               l_file_map = [''a'' \<mapsto> \<lparr>l_filesize = 2, l_start_block = Some 0\<rparr>],
               l_used_memory = 2\<rparr>"
  let ?xs1 = "\<lparr>i_file_map = [''a'' \<mapsto> \<lparr>i_filesize = 2, block_indices = [0, 1]\<rparr>],
               i_free_list = [2, 3], i_used_memory = 2\<rparr>"
  have c: "cfs_create (new_fs 4 BEST_FIT) ''a'' 2 = Some (Inr (Done, ?cs1))"
    by (simp add: cfs_create_def new_fs_def get_index_def best_fit_def best_fit_loop.simps
        scan_free.simps set_loop.simps bs_test_def bs_set_def INT_MAX_def eval_nat_numeral)
  have m: "mcfs_create (new_fs 4 FIRST_FIT) ''a'' 2 = Some (Inr (Done, ?ms1))"
    by (simp add: mcfs_create_def new_fs_def get_index_def first_fit_def first_fit_loop.simps
        scan_bounded.simps set_loop.simps bs_test_def bs_set_def eval_nat_numeral)
  have w: "lfs_wf (new_lfs 4)"
    by (simp add: lfs_wf_def new_lfs_def)
  have k: "(1::int) \<le> 2"
    by simp
  have l: "lfs_create (new_lfs 4) ''a'' 2 = Inr (Done, ?ls1)"
    by (simp add: lfs_create_def new_lfs_def to_size_t_def lfs_link.simps upt_rec eval_nat_numeral)
  have x: "ifs_create (new_ifs 4) ''a'' 2 = Inr (Done, ?xs1)"
    by (simp add: ifs_create_def new_ifs_def to_size_t_def ifs_take.simps upt_rec eval_nat_numeral)
  have fl: "l_free_list (new_lfs 4) = [0, 1, 2, 3]" "i_free_list (new_ifs 4) = [0, 1, 2, 3]"
    by (simp_all add: new_lfs_def new_ifs_def upt_rec eval_nat_numeral)
  from create_delete_round_trip
    [of "new_fs 4 BEST_FIT" "''a''" 2 ?cs1 "new_fs 4 FIRST_FIT" ?ms1 "new_lfs 4" ?ls1
        "new_ifs 4" ?xs1]
    c m w k l x
  show ?thesis
    by (simp add: fl)
qed

section \<open>Reading a contiguous file\<close>





text \<open>
  Outside the file the returned integer is still \<^verbatim>\<open>size+1\<close>, whatever was read:
  reading 3 blocks from offset 7 of the same file reads nothing and returns 4. At
  \<open>size = INT_MAX\<close> the addition \<^verbatim>\<open>size+1\<close> is outside the range of \<^verbatim>\<open>int\<close>.
\<close>

lemma cfs_read_outside_file:
  "cfs_read
     \<lparr>memory_map = [True, True, True, True, False, False],
      file_map = [''a'' \<mapsto> \<lparr>filesize = 4, start_block = 0\<rparr>],
      start_index = 0, strategy = BEST_FIT, used_memory = 4\<rparr> ''a'' 3 7
     = Inr (Done, [], 4)
   \<and> cfs_read
        \<lparr>memory_map = [True, True, True, True, False, False],
         file_map = [''a'' \<mapsto> \<lparr>filesize = 4, start_block = 0\<rparr>],
         start_index = 0, strategy = BEST_FIT, used_memory = 4\<rparr> ''a'' 2147483647 0
       = Inl Int_overflow"
  by (simp add: cfs_read_def cfs_read_loop.simps INT_MAX_def)

section \<open>Writing an indexed file\<close>

lemma to_size_t_id: "0 \<le> x \<Longrightarrow> x < 2 ^ 64 \<Longrightarrow> to_size_t x = x"
  by (simp add: to_size_t_def)

lemma ifs_write_loop_in_bounds:
  assumes "0 \<le> bno"
      and "bno \<le> int (length (block_indices fp))"
      and "bno + (sz - written) \<le> 2 ^ 64"
      and "bno + (sz - written) - int (length (block_indices fp)) \<le> int (length fl)"
  shows "\<exists>fp1 fl1 um1 ba1.
           ifs_write_loop sz fp fl um written bno ba = Inr (fp1, fl1, um1, ba1)"
  using assms
proof (induction sz fp fl um written bno ba rule: ifs_write_loop.induct)
  case (1 sz fp fl um written bno ba)
  show ?case
  proof (cases "written < sz")
    case False
    then show ?thesis
      by (subst ifs_write_loop.simps) simp
  next
    case True
    with "1.prems" have small: "to_size_t bno = bno"
      by (intro to_size_t_id) auto
    show ?thesis
    proof (cases "bno = int (length (block_indices fp))")
      case at_end: True
      with True "1.prems"(4) obtain b fl' where fl: "fl = b # fl'"
        by (cases fl) auto
      let ?fp = "fp\<lparr>block_indices := block_indices fp @ [b], i_filesize := i_filesize fp + 1\<rparr>"
      have grow: "(if int (length (block_indices fp)) \<le> to_size_t bno
                   then case fl of [] \<Rightarrow> Inl List_front_empty
                        | b # fl' \<Rightarrow>
                            Inr (fp\<lparr>block_indices := block_indices fp @ [b],
                                    i_filesize := i_filesize fp + 1\<rparr>, fl', um + 1)
                   else Inr (fp, fl, um)) = Inr (?fp, fl', um + 1)"
        using at_end small fl by simp
      have "\<exists>fp1 fl1 um1 ba1.
              ifs_write_loop sz ?fp fl' (um + 1) (written + 1) (bno + 1) (ba + 1)
                = Inr (fp1, fl1, um1, ba1)"
        using "1.prems" at_end True fl
        by (intro "1.IH" [OF True grow refl refl]) auto
      moreover have "ifs_write_loop sz fp fl um written bno ba
                       = ifs_write_loop sz ?fp fl' (um + 1) (written + 1) (bno + 1) (ba + 1)"
        using True grow "1.prems"(1) at_end
        by (subst ifs_write_loop.simps) (simp del: if_split)
      ultimately show ?thesis by simp
    next
      case inside: False
      with "1.prems"(2) have lt: "bno < int (length (block_indices fp))"
        by simp
      have keep: "(if int (length (block_indices fp)) \<le> to_size_t bno
                   then case fl of [] \<Rightarrow> Inl List_front_empty
                        | b # fl' \<Rightarrow>
                            Inr (fp\<lparr>block_indices := block_indices fp @ [b],
                                    i_filesize := i_filesize fp + 1\<rparr>, fl', um + 1)
                   else Inr (fp, fl, um)) = Inr (fp, fl, um)"
        using lt small by simp
      have "\<exists>fp1 fl1 um1 ba1.
              ifs_write_loop sz fp fl um (written + 1) (bno + 1) (ba + 1)
                = Inr (fp1, fl1, um1, ba1)"
        using "1.prems" lt True
        by (intro "1.IH" [OF True keep refl refl]) auto
      moreover have "ifs_write_loop sz fp fl um written bno ba
                       = ifs_write_loop sz fp fl um (written + 1) (bno + 1) (ba + 1)"
        using True keep "1.prems"(1) lt
        by (subst ifs_write_loop.simps) (simp del: if_split)
      ultimately show ?thesis by simp
    qed
  qed
qed

text \<open>The loop keeps \<^verbatim>\<open>filesize\<close> equal to the length of the index table.\<close>

lemma ifs_write_loop_filesize:
  "ifs_write_loop sz fp fl um written bno ba = Inr (fp1, fl1, um1, ba1) \<Longrightarrow>
   i_filesize fp = int (length (block_indices fp)) \<Longrightarrow>
   i_filesize fp1 = int (length (block_indices fp1))"
proof (induction sz fp fl um written bno ba rule: ifs_write_loop.induct)
  case (1 sz fp fl um written bno ba)
  show ?case
  proof (cases "written < sz")
    case False
    with "1.prems" show ?thesis
      by (subst (asm) ifs_write_loop.simps) simp
  next
    case True
    let ?pre = "if int (length (block_indices fp)) \<le> to_size_t bno
                then case fl of [] \<Rightarrow> Inl List_front_empty
                     | b # fl' \<Rightarrow>
                         Inr (fp\<lparr>block_indices := block_indices fp @ [b],
                                 i_filesize := i_filesize fp + 1\<rparr>, fl', um + 1)
                else Inr (fp, fl, um)"
    from True "1.prems"(1) obtain fp2 fl2 um2 where
      pre: "?pre = Inr (fp2, fl2, um2)"
      and ok: "0 \<le> bno \<and> bno < int (length (block_indices fp2))"
      and rec: "ifs_write_loop sz fp2 fl2 um2 (written + 1) (bno + 1) (ba + 1)
                  = Inr (fp1, fl1, um1, ba1)"
      by (subst (asm) ifs_write_loop.simps)
         (simp del: if_split split: sum.splits prod.splits if_split_asm)
    from pre "1.prems"(2) have "i_filesize fp2 = int (length (block_indices fp2))"
      by (auto split: if_splits list.splits)
    from "1.IH" [OF True pre refl refl ok rec this] show ?thesis .
  qed
qed

lemma ifs_inv_new: "ifs_inv (new_ifs N)"
  by (simp add: ifs_inv_def new_ifs_def)

lemma ifs_inv_create:
  assumes "ifs_inv s" and "ifs_create s f k = Inr (st, s1)"
  shows "ifs_inv s1"
proof (cases "st = Done")
  case False
  with assms show ?thesis
    by (auto simp: ifs_create_def split: if_splits sum.splits prod.splits)
next
  case True
  with assms(2) obtain bi fl where
    take: "ifs_take [] (i_free_list s) k 0 = Inr (bi, fl)" and ne: "bi \<noteq> []"
    and s1: "s1 = s\<lparr>i_free_list := fl, i_used_memory := i_used_memory s + k,
                   i_file_map := (i_file_map s)(f \<mapsto> \<lparr>i_filesize = k, block_indices = bi\<rparr>)\<rparr>"
    by (auto simp: ifs_create_def split: if_splits sum.splits prod.splits)
  from ifs_take_result [OF take] ne have "int (length bi) = k"
    by auto
  with assms(1) show ?thesis
    by (auto simp: ifs_inv_def s1)
qed

lemma ifs_inv_write:
  assumes "ifs_inv s" and "ifs_write s f sz offset = Inr (st, s1, n)"
  shows "ifs_inv s1"
proof (cases "st = Done")
  case False
  with assms show ?thesis
    by (auto simp: ifs_write_def split: option.splits if_splits sum.splits prod.splits)
next
  case True
  with assms(2) obtain fp fp1 fl um ba where
    fp: "i_file_map s f = Some fp"
    and loop: "ifs_write_loop sz fp (i_free_list s) (i_used_memory s) 0 offset 1
                 = Inr (fp1, fl, um, ba)"
    and s1: "s1 = s\<lparr>i_free_list := fl, i_used_memory := um,
                   i_file_map := (i_file_map s)(f \<mapsto> fp1)\<rparr>"
    by (auto simp: ifs_write_def split: option.splits if_splits sum.splits prod.splits)
  from assms(1) fp have "i_filesize fp = int (length (block_indices fp))"
    by (simp add: ifs_inv_def)
  from ifs_write_loop_filesize [OF loop this] assms(1) show ?thesis
    by (auto simp: ifs_inv_def s1)
qed

lemma ifs_inv_delete_file:
  assumes "ifs_inv s" and "ifs_delete_file s f = Inr (st, s1)"
  shows "ifs_inv s1"
  using assms
  by (auto simp: ifs_inv_def ifs_delete_file_def split: option.splits if_splits)

text \<open>
  C10, as amended. In a state where every file has \<^verbatim>\<open>filesize\<close> equal to the length
  of its index table (\<open>ifs_inv\<close>: true of the new file system and kept by create,
  write and delete_file), a write to a registered file at an offset
  \<open>0 \<le> offset \<le> filesize\<close> with enough free blocks for the growth returns normally:
  no read of \<^verbatim>\<open>block_indices[bno]\<close> is outside the table (and
  \<^verbatim>\<open>free_list.front()\<close> is never taken from an empty list). \<open>sz\<close> and \<open>offset\<close> are
  values of a C++ \<^verbatim>\<open>int\<close>.
\<close>

theorem ifs_write_index_in_bounds:
  assumes "ifs_inv s"
      and "i_file_map s filename = Some fp"
      and "0 \<le> offset" and "offset \<le> i_filesize fp"
      and "offset < 2 ^ 31" and "sz < 2 ^ 31"
      and "offset + sz - i_filesize fp \<le> int (length (i_free_list s))"
  shows "\<exists>s' n. ifs_write s filename sz offset = Inr (Done, s', n)"
proof -
  from assms(1,2) have fsz: "i_filesize fp = int (length (block_indices fp))"
    by (simp add: ifs_inv_def)
  have no_oos: "\<not> (offset + sz > i_filesize fp
                 \<and> to_size_t (offset + sz - i_filesize fp) > int (length (i_free_list s)))"
  proof
    assume a: "offset + sz > i_filesize fp
                 \<and> to_size_t (offset + sz - i_filesize fp) > int (length (i_free_list s))"
    with assms fsz have "to_size_t (offset + sz - i_filesize fp) = offset + sz - i_filesize fp"
      by (intro to_size_t_id) auto
    with a assms(7) show False by simp
  qed
  have "offset + (sz - 0) \<le> (2::int) ^ 64"
    using assms(5,6) by simp
  with assms fsz obtain fp1 fl1 um1 ba1 where
    "ifs_write_loop sz fp (i_free_list s) (i_used_memory s) 0 offset 1 = Inr (fp1, fl1, um1, ba1)"
    using ifs_write_loop_in_bounds [of offset fp sz 0 "i_free_list s" "i_used_memory s" 1]
    by auto
  with assms(2) no_oos show ?thesis
    by (simp add: ifs_write_def)
qed

theorem ifs_write_index_in_bounds_witness:
  "ifs_inv
     \<lparr>i_file_map = [''a'' \<mapsto> \<lparr>i_filesize = 2, block_indices = [0, 1]\<rparr>],
      i_free_list = [2, 3, 4, 5, 6, 7], i_used_memory = 2\<rparr>
   \<and> (0::int) \<le> 1 \<and> (1::int) \<le> 2 \<and> (1::int) < 2 ^ 31 \<and> (3::int) < 2 ^ 31
   \<and> (1::int) + 3 - 2 \<le> 6
   \<and> (\<exists>s' n. ifs_write
         \<lparr>i_file_map = [''a'' \<mapsto> \<lparr>i_filesize = 2, block_indices = [0, 1]\<rparr>],
          i_free_list = [2, 3, 4, 5, 6, 7], i_used_memory = 2\<rparr> ''a'' 3 1
        = Inr (Done, s', n))"
proof -
  let ?s = "\<lparr>i_file_map = [''a'' \<mapsto> \<lparr>i_filesize = 2, block_indices = [0, 1]\<rparr>],
             i_free_list = [2, 3, 4, 5, 6, 7], i_used_memory = 2\<rparr>"
  let ?fp = "\<lparr>i_filesize = 2, block_indices = [0, 1]\<rparr>"
  have h1: "ifs_inv ?s"
    by (simp add: ifs_inv_def)
  have h2: "i_file_map ?s ''a'' = Some ?fp"
    by simp
  have h3: "(0::int) \<le> 1" and h4: "1 \<le> i_filesize ?fp" and h5: "(1::int) < 2 ^ 31"
    and h6: "(3::int) < 2 ^ 31" and h7: "1 + 3 - i_filesize ?fp \<le> int (length (i_free_list ?s))"
    by simp_all
  from ifs_write_index_in_bounds [OF h1 h2 h3 h4 h5 h6 h7] h1 show ?thesis
    by simp
qed

text \<open>
  C10 as stated, with the precondition \<open>offset \<le> filesize\<close> alone, fails at a negative
  offset: a write of one block at offset \<open>- 1\<close> to a file of 2 blocks, with 6 free
  blocks, converts \<open>bno = - 1\<close> to \<^verbatim>\<open>size_t\<close> in the test
  \<^verbatim>\<open>bno >= fp->block_indices.size()\<close>, takes a block from the free list and then
  reads \<^verbatim>\<open>block_indices[-1]\<close>.
\<close>

theorem ifs_write_negative_offset_counterexample:
  "ifs_inv
     \<lparr>i_file_map = [''a'' \<mapsto> \<lparr>i_filesize = 2, block_indices = [0, 1]\<rparr>],
      i_free_list = [2, 3, 4, 5, 6, 7], i_used_memory = 2\<rparr>
   \<and> i_file_map
        \<lparr>i_file_map = [''a'' \<mapsto> \<lparr>i_filesize = 2, block_indices = [0, 1]\<rparr>],
         i_free_list = [2, 3, 4, 5, 6, 7], i_used_memory = 2\<rparr> ''a''
       = Some \<lparr>i_filesize = 2, block_indices = [0, 1]\<rparr>
   \<and> (- 1::int) \<le> 2 \<and> (- 1::int) + 1 - 2 \<le> 6
   \<and> ifs_write
        \<lparr>i_file_map = [''a'' \<mapsto> \<lparr>i_filesize = 2, block_indices = [0, 1]\<rparr>],
         i_free_list = [2, 3, 4, 5, 6, 7], i_used_memory = 2\<rparr> ''a'' 1 (- 1)
       = Inl (Vector_index_ub (- 1))"
  by (simp add: ifs_inv_def ifs_write_def ifs_write_loop.simps to_size_t_def)

text \<open>The state after the write of the witness, computed.\<close>

lemma ifs_write_example:
  "ifs_write
     \<lparr>i_file_map = [''a'' \<mapsto> \<lparr>i_filesize = 2, block_indices = [0, 1]\<rparr>],
      i_free_list = [2, 3, 4, 5, 6, 7], i_used_memory = 2\<rparr> ''a'' 3 1
     = Inr (Done,
         \<lparr>i_file_map = [''a'' \<mapsto> \<lparr>i_filesize = 4, block_indices = [0, 1, 2, 3]\<rparr>],
          i_free_list = [4, 5, 6, 7], i_used_memory = 4\<rparr>, 4)"
  by (simp add: ifs_write_def ifs_write_loop.simps to_size_t_def)

text \<open>
  The precondition \<open>offset \<le> filesize\<close> is needed: a write of one block at offset 5
  to a file of 2 blocks appends one block to the table and then reads
  \<^verbatim>\<open>block_indices[5]\<close> in a table of length 3.
\<close>

lemma ifs_write_past_end_out_of_bounds:
  "ifs_write
     \<lparr>i_file_map = [''a'' \<mapsto> \<lparr>i_filesize = 2, block_indices = [0, 1]\<rparr>],
      i_free_list = [2, 3, 4, 5, 6, 7], i_used_memory = 2\<rparr> ''a'' 1 5
     = Inl (Vector_index_ub 5)"
  by (simp add: ifs_write_def ifs_write_loop.simps to_size_t_def)

section \<open>Growing a contiguous file inside the device\<close>

lemma avail_loop_within:
  "0 \<le> endb + available \<Longrightarrow> endb + req \<le> int (length m) \<Longrightarrow>
   \<exists>a. avail_loop m endb req available = Inr a
     \<and> ((a = req) = (available \<le> req \<and> free_between m (endb + available) (endb + req)))"
proof (induction m endb req available rule: avail_loop.induct)
  case (1 m endb req available)
  have comm: "available + endb = endb + available"
    by simp
  show ?case
  proof (cases "available < req")
    case False
    then have "avail_loop m endb req available = Inr available"
      by (subst avail_loop.simps) simp
    moreover from False have "free_between m (endb + available) (endb + req)"
      by (intro free_between_empty) simp
    ultimately show ?thesis
      using False by simp
  next
    case True
    with "1.prems" have rng: "0 \<le> endb + available" "endb + available < int (length m)"
      by simp_all
    then have t: "bs_test m (available + endb) = Inr (m ! nat (endb + available))"
      by (simp add: bs_test_def comm)
    show ?thesis
    proof (cases "m ! nat (endb + available)")
      case used: True
      with True t have "avail_loop m endb req available = Inr available"
        by (subst avail_loop.simps) simp
      moreover have "\<not> free_between m (endb + available) (endb + req)"
        using free_between_first [of m "endb + available" "endb + req"] used True by auto
      ultimately show ?thesis
        using True by simp
    next
      case free: False
      with t have t0: "bs_test m (available + endb) = Inr False"
        by simp
      with True have step: "avail_loop m endb req available = avail_loop m endb req (available + 1)"
        by (subst avail_loop.simps) simp
      from rng have "0 \<le> endb + (available + 1)"
        by simp
      from "1.IH" [OF True t0 _ this "1.prems"(2)] obtain a where
        a: "avail_loop m endb req (available + 1) = Inr a"
        and eq: "(a = req) = (available + 1 \<le> req
                   \<and> free_between m (endb + (available + 1)) (endb + req))"
        by auto
      from t0 have t': "bs_test m (endb + available) = Inr False"
        by (simp add: comm)
      have assoc: "endb + (available + 1) = endb + available + 1"
        by simp
      have "free_between m (endb + available) (endb + req)
              = free_between m (endb + available + 1) (endb + req)"
      proof
        assume "free_between m (endb + available) (endb + req)"
        then show "free_between m (endb + available + 1) (endb + req)"
          by (rule free_between_tail) simp
      next
        assume "free_between m (endb + available + 1) (endb + req)"
        with t' show "free_between m (endb + available) (endb + req)"
          by (rule free_between_step)
      qed
      with eq True
      have "(a = req) = (available \<le> req \<and> free_between m (endb + available) (endb + req))"
        by (simp add: assoc)
      with a step show ?thesis
        by simp
    qed
  qed
qed

text \<open>
  Inside the device the growing write of the ContiguousFileSystem extends in place:
  when the \<open>req\<close> blocks after the file exist, the write succeeds exactly when they are
  all free, marks exactly them and adds \<open>req\<close> to \<^verbatim>\<open>filesize\<close>; otherwise it
  reports OutOfSpace, returns 1 and leaves the state as it was.
\<close>

lemma cfs_write_growth_within_device:
  assumes fp: "file_map s f = Some fp"
      and grow: "sz + offset > filesize fp"
      and lo: "0 \<le> start_block fp + filesize fp"
      and hi: "start_block fp + (sz + offset) \<le> int (length (memory_map s))"
  shows "if free_between (memory_map s) (start_block fp + filesize fp) (start_block fp + (sz + offset))
         then \<exists>m'. cfs_write s f sz offset
                 = Inr (Done,
                     s\<lparr>memory_map := m',
                       file_map := (file_map s)(f \<mapsto> fp\<lparr>filesize := sz + offset\<rparr>),
                       used_memory := used_memory s + (sz + offset - filesize fp)\<rparr>,
                     sz + 1)
               \<and> length m' = length (memory_map s)
               \<and> (\<forall>k < length (memory_map s).
                     m' ! k = (memory_map s ! k
                               \<or> (start_block fp + filesize fp \<le> int k
                                  \<and> int k < start_block fp + (sz + offset))))
         else cfs_write s f sz offset = Inr (OutOfSpace, s, 1)"
proof -
  define req where "req = sz + offset - filesize fp"
  define endb where "endb = start_block fp + filesize fp"
  have er: "endb + req = start_block fp + (sz + offset)"
    by (simp add: req_def endb_def)
  from grow have req: "0 < req"
    by (simp add: req_def)
  from lo hi have "0 \<le> endb + 0" "endb + req \<le> int (length (memory_map s))"
    by (simp_all add: req_def endb_def)
  from avail_loop_within [OF this] req obtain a where
    a: "avail_loop (memory_map s) endb req 0 = Inr a"
    and eq: "(a = req) = free_between (memory_map s) endb (endb + req)"
    by auto
  show ?thesis
  proof (cases "free_between (memory_map s) endb (endb + req)")
    case False
    with eq have "a \<noteq> req"
      by simp
    with fp grow a have "cfs_write s f sz offset = Inr (OutOfSpace, s, 1)"
      by (simp add: cfs_write_def Let_def req_def [symmetric] endb_def [symmetric])
    with False show ?thesis
      by (simp add: er endb_def [symmetric])
  next
    case True
    with eq have ar: "a = req"
      by simp
    have "0 < req \<longrightarrow> 0 \<le> endb + 0 \<and> endb + req \<le> int (length (memory_map s))"
      using lo hi by (simp add: req_def endb_def)
    from set_loop_succeeds [OF this] obtain m' where
      set: "set_loop (memory_map s) endb req 0 = Inr m'"
      by blast
    from set_loop_result [OF set]
    have "length m' = length (memory_map s)"
      and "\<forall>k < length (memory_map s).
             m' ! k = (memory_map s ! k \<or> (endb \<le> int k \<and> int k < endb + req))"
      by auto
    moreover from fp grow a ar set
    have "cfs_write s f sz offset
            = Inr (Done,
                s\<lparr>memory_map := m',
                  file_map := (file_map s)(f \<mapsto> fp\<lparr>filesize := filesize fp + req\<rparr>),
                  used_memory := used_memory s + req\<rparr>,
                sz + 1)"
      by (simp add: cfs_write_def Let_def req_def [symmetric] endb_def [symmetric])
    moreover have "filesize fp + req = sz + offset"
      by (simp add: req_def)
    ultimately show ?thesis
      using True by (auto simp: er endb_def [symmetric] req_def [symmetric])
  qed
qed

section \<open>Where the code departs from its specification\<close>

text \<open>
  C1. A failed operation leaves the whole state as it was; in particular a write of
  the ModifiedContiguousFileSystem whose hole search finds no run mutates nothing.
  On the code the write does not return at all in that case: with 4 blocks and a
  file \<open>a\<close> of 2 blocks, \<^verbatim>\<open>write("a", 5, 0)\<close> needs 3 more blocks, \<^verbatim>\<open>get_index(3)\<close>
  returns \<open>- 1\<close>, and the loop that marks the blocks runs before the test
  \<^verbatim>\<open>index == -1\<close>: its first step is \<^verbatim>\<open>memory_map.set(-1)\<close>, which throws
  \<^verbatim>\<open>std::out_of_range\<close>.
\<close>

theorem mcfs_write_no_hole_throws:
  "\<exists>s1. mcfs_create (new_fs 4 FIRST_FIT) ''a'' 2 = Some (Inr (Done, s1))
      \<and> memory_map s1 = [True, True, False, False]
      \<and> get_index s1 3 = Some (Inr (- 1, s1))
      \<and> mcfs_write s1 ''a'' 5 0 = Some (Inl (Bitset_out_of_range (- 1)))"
proof -
  let ?s1 = "\<lparr>memory_map = [True, True, False, False],
              file_map = [''a'' \<mapsto>
                \<lparr>mc_filesize = 2, mc_start = [\<lparr>mb_start_block = 0, mb_size = 2\<rparr>]\<rparr>],
              start_index = 0, strategy = FIRST_FIT, used_memory = 2\<rparr>"
  have "mcfs_create (new_fs 4 FIRST_FIT) ''a'' 2 = Some (Inr (Done, ?s1))"
    by (simp add: mcfs_create_def new_fs_def get_index_def first_fit_def first_fit_loop.simps
        scan_bounded.simps set_loop.simps bs_test_def bs_set_def eval_nat_numeral)
  moreover have gi: "get_index ?s1 3 = Some (Inr (- 1, ?s1))"
    by (simp add: get_index_def first_fit_def first_fit_loop.simps scan_bounded.simps
        bs_test_def)
  moreover have "mcfs_write ?s1 ''a'' 5 0 = Some (Inl (Bitset_out_of_range (- 1)))"
    by (simp add: mcfs_write_def gi set_loop.simps bs_set_def)
  ultimately show ?thesis
    by (intro exI [of _ ?s1]) simp
qed

text \<open>
  Whenever the hole search of a growing write of the ModifiedContiguousFileSystem
  returns \<open>- 1\<close>, the write throws.
\<close>

lemma mcfs_write_search_fails:
  assumes "file_map s f = Some fp" and "sz + offset > mc_filesize fp"
      and "get_index s (sz + offset - mc_filesize fp) = Some (Inr (- 1, s1))"
  shows "mcfs_write s f sz offset = Some (Inl (Bitset_out_of_range (- 1)))"
proof -
  from assms(2) have "set_loop (memory_map s1) (- 1) (sz + offset - mc_filesize fp) 0
                        = Inl (Bitset_out_of_range (- 1))"
    by (subst set_loop.simps) (simp add: bs_set_def)
  with assms show ?thesis
    by (simp add: mcfs_write_def Let_def)
qed

text \<open>
  C2. The sum of the sizes of the live files equals \<open>N\<close> minus the length of the free
  list (linked allocator), also after a create of size 0. On the code, \<^verbatim>\<open>create\<close>
  of the LinkedFileSystem takes the first block from the free list before its loop,
  whatever the size: after \<^verbatim>\<open>create("a", 0)\<close> on 4 blocks the only file has size 0
  and the free list has 3 blocks.
\<close>

theorem lfs_create_size_zero_takes_a_block:
  "\<exists>s1. lfs_create (new_lfs 4) ''a'' 0 = Inr (Done, s1)
      \<and> lfs_live_size s1 = 0
      \<and> length (l_free_list s1) = 3
      \<and> l_used_memory s1 = 0"
proof -
  let ?s1 = "\<lparr>l_free_list = [1, 2, 3], l_next = [None, None, None, None],
              l_file_map = [''a'' \<mapsto> \<lparr>l_filesize = 0, l_start_block = Some 0\<rparr>],
              l_used_memory = 0\<rparr>"
  have "lfs_create (new_lfs 4) ''a'' 0 = Inr (Done, ?s1)"
    by (simp add: lfs_create_def new_lfs_def to_size_t_def lfs_link.simps upt_rec eval_nat_numeral)
  moreover have "lfs_live_size ?s1 = 0"
    by (simp add: lfs_live_size_def)
  ultimately show ?thesis
    by (intro exI [of _ ?s1]) simp
qed

text \<open>IndexedFileSystem: a create of size 0 reads \<^verbatim>\<open>block_indices[0]\<close> of an empty table.\<close>

lemma ifs_create_size_zero:
  "ifs_create (new_ifs 4) ''a'' 0 = Inl (Vector_index_ub 0)"
  by (simp add: ifs_create_def new_ifs_def to_size_t_def ifs_take.simps)

text \<open>
  C3. A growing write of the ContiguousFileSystem succeeds exactly when the blocks
  after the file are all free, and fails with OutOfSpace and no mutation otherwise.
  On the code the loop that tests the following blocks has no bound: with 4 blocks
  and a file \<open>a\<close> in blocks 0 and 1, \<^verbatim>\<open>write("a", 3, 2)\<close> needs the blocks 2, 3 and 4;
  blocks 2 and 3 are free and the loop then reads \<^verbatim>\<open>memory_map[4]\<close>, outside the
  bitset, instead of reporting OutOfSpace.
\<close>

theorem cfs_write_growth_reads_past_device:
  "\<exists>s1. cfs_create (new_fs 4 BEST_FIT) ''a'' 2 = Some (Inr (Done, s1))
      \<and> memory_map s1 = [True, True, False, False]
      \<and> file_map s1 ''a'' = Some \<lparr>filesize = 2, start_block = 0\<rparr>
      \<and> cfs_write s1 ''a'' 3 2 = Inl (Bitset_index_ub 4)"
proof -
  let ?s1 = "\<lparr>memory_map = [True, True, False, False],
              file_map = [''a'' \<mapsto> \<lparr>filesize = 2, start_block = 0\<rparr>],
              start_index = 0, strategy = BEST_FIT, used_memory = 2\<rparr>"
  have "cfs_create (new_fs 4 BEST_FIT) ''a'' 2 = Some (Inr (Done, ?s1))"
    by (simp add: cfs_create_def new_fs_def get_index_def best_fit_def best_fit_loop.simps
        scan_free.simps set_loop.simps bs_test_def bs_set_def INT_MAX_def eval_nat_numeral)
  moreover have "cfs_write ?s1 ''a'' 3 2 = Inl (Bitset_index_ub 4)"
    by (simp add: cfs_write_def avail_loop.simps bs_test_def)
  ultimately show ?thesis
    by (intro exI [of _ ?s1]) simp
qed

text \<open>
  C4. Among several free runs of the smallest sufficient length, best-fit returns
  the earliest. On the code the update condition is \<^verbatim>\<open>j-i <= min_size\<close>, so a later
  run of the same length replaces an earlier one: with the free runs \<open>[0, 2)\<close> and
  \<open>[3, 5)\<close> and size 2, \<^verbatim>\<open>best_fit\<close> returns 3.
\<close>

theorem best_fit_returns_last_of_equal_runs:
  "best_fit [False, False, True, False, False, True] 2 = Inr 3"
  by code_simp

text \<open>
  C5. First-fit returns the start of the earliest free run that is long enough, and
  \<open>- 1\<close> only when there is none. On the code, after a hole that is too short the scan
  goes on at \<^verbatim>\<open>i += j\<close> and skips blocks: in the block map below the free run
  \<open>[4, 6)\<close> has length 2, and \<^verbatim>\<open>first_fit(2)\<close> returns \<open>- 1\<close> (from \<open>i = 2\<close>, \<open>j = 3\<close>
  the scan jumps to 5, and from \<open>i = 5\<close>, \<open>j = 6\<close> to 11).
\<close>

theorem first_fit_misses_a_run:
  "first_fit [True, True, False, True, False, False, True, True, True, True] 2
     = Some (Inr (- 1))"
  by code_simp

lemmas cfs_eval =
  cfs_create_def cfs_delete_file_def get_index_def first_fit_def first_fit_loop.simps
  scan_bounded.simps set_loop.simps reset_loop.simps bs_test_def bs_set_def bs_reset_def

text \<open>
  The scenario with 10 blocks holds on the code: under first-fit,
  \<^verbatim>\<open>CREATE a 4\<close>, \<^verbatim>\<open>CREATE b 4\<close>, \<^verbatim>\<open>DELETE_FILE a\<close>, \<^verbatim>\<open>CREATE c 4\<close> puts \<open>c\<close> at
  block 0.
\<close>

lemma first_fit_scenario:
  "\<exists>s1 s2 s3 s4.
      cfs_create (new_fs 10 FIRST_FIT) ''a'' 4 = Some (Inr (Done, s1))
      \<and> cfs_create s1 ''b'' 4 = Some (Inr (Done, s2))
      \<and> cfs_delete_file s2 ''a'' = Inr (Done, s3)
      \<and> cfs_create s3 ''c'' 4 = Some (Inr (Done, s4))
      \<and> file_map s4 ''c'' = Some \<lparr>filesize = 4, start_block = 0\<rparr>"
proof -
  let ?s1 = "\<lparr>memory_map = [True, True, True, True, False, False, False, False, False, False],
              file_map = [''a'' \<mapsto> \<lparr>filesize = 4, start_block = 0\<rparr>],
              start_index = 0, strategy = FIRST_FIT, used_memory = 4\<rparr>"
  let ?s2 = "\<lparr>memory_map = [True, True, True, True, True, True, True, True, False, False],
              file_map = [''a'' \<mapsto> \<lparr>filesize = 4, start_block = 0\<rparr>,
                          ''b'' \<mapsto> \<lparr>filesize = 4, start_block = 4\<rparr>],
              start_index = 0, strategy = FIRST_FIT, used_memory = 8\<rparr>"
  let ?s3 = "\<lparr>memory_map = [False, False, False, False, True, True, True, True, False, False],
              file_map = ([''a'' \<mapsto> \<lparr>filesize = 4, start_block = 0\<rparr>,
                           ''b'' \<mapsto> \<lparr>filesize = 4, start_block = 4\<rparr>])(''a'' := None),
              start_index = 0, strategy = FIRST_FIT, used_memory = 4\<rparr>"
  let ?s4 = "\<lparr>memory_map = [True, True, True, True, True, True, True, True, False, False],
              file_map = ([''a'' \<mapsto> \<lparr>filesize = 4, start_block = 0\<rparr>,
                           ''b'' \<mapsto> \<lparr>filesize = 4, start_block = 4\<rparr>])
                         (''a'' := None, ''c'' \<mapsto> \<lparr>filesize = 4, start_block = 0\<rparr>),
              start_index = 0, strategy = FIRST_FIT, used_memory = 8\<rparr>"
  have "cfs_create (new_fs 10 FIRST_FIT) ''a'' 4 = Some (Inr (Done, ?s1))"
    by (simp add: cfs_eval new_fs_def eval_nat_numeral)
  moreover have "cfs_create ?s1 ''b'' 4 = Some (Inr (Done, ?s2))"
    by (simp add: cfs_eval)
  moreover have "cfs_delete_file ?s2 ''a'' = Inr (Done, ?s3)"
    by (simp add: cfs_eval)
  moreover have "cfs_create ?s3 ''c'' 4 = Some (Inr (Done, ?s4))"
    by (simp add: cfs_eval)
  ultimately show ?thesis
    by (intro exI [of _ ?s1] exI [of _ ?s2] exI [of _ ?s3] exI [of _ ?s4]) simp
qed

text \<open>
  The block map of the first-fit example is reached from the new file system: five
  creates fill the 10 blocks, two deletes free block 2 and blocks 4 and 5, and the
  create of 2 blocks that follows is refused although blocks 4 and 5 are free.
\<close>

lemma first_fit_example_reachable:
  "\<exists>s1 s2 s3 s4 s5 s6 s7.
      cfs_create (new_fs 10 FIRST_FIT) ''a'' 2 = Some (Inr (Done, s1))
      \<and> cfs_create s1 ''b'' 1 = Some (Inr (Done, s2))
      \<and> cfs_create s2 ''c'' 1 = Some (Inr (Done, s3))
      \<and> cfs_create s3 ''d'' 2 = Some (Inr (Done, s4))
      \<and> cfs_create s4 ''e'' 4 = Some (Inr (Done, s5))
      \<and> cfs_delete_file s5 ''b'' = Inr (Done, s6)
      \<and> cfs_delete_file s6 ''d'' = Inr (Done, s7)
      \<and> memory_map s7 = [True, True, False, True, False, False, True, True, True, True]
      \<and> cfs_create s7 ''f'' 2 = Some (Inr (OutOfSpace, s7))"
proof -
  let ?s1 = "\<lparr>memory_map = [True, True, False, False, False, False, False, False, False, False],
       file_map = [''a'' \<mapsto> \<lparr>filesize = 2, start_block = 0\<rparr>],
       start_index = 0, strategy = FIRST_FIT, used_memory = 2\<rparr>"
  let ?s2 = "\<lparr>memory_map = [True, True, True, False, False, False, False, False, False, False],
       file_map = [''a'' \<mapsto> \<lparr>filesize = 2, start_block = 0\<rparr>, ''b'' \<mapsto> \<lparr>filesize = 1, start_block = 2\<rparr>],
       start_index = 0, strategy = FIRST_FIT, used_memory = 3\<rparr>"
  let ?s3 = "\<lparr>memory_map = [True, True, True, True, False, False, False, False, False, False],
       file_map = [''a'' \<mapsto> \<lparr>filesize = 2, start_block = 0\<rparr>, ''b'' \<mapsto> \<lparr>filesize = 1, start_block = 2\<rparr>, ''c'' \<mapsto> \<lparr>filesize = 1, start_block = 3\<rparr>],
       start_index = 0, strategy = FIRST_FIT, used_memory = 4\<rparr>"
  let ?s4 = "\<lparr>memory_map = [True, True, True, True, True, True, False, False, False, False],
       file_map = [''a'' \<mapsto> \<lparr>filesize = 2, start_block = 0\<rparr>, ''b'' \<mapsto> \<lparr>filesize = 1, start_block = 2\<rparr>, ''c'' \<mapsto> \<lparr>filesize = 1, start_block = 3\<rparr>, ''d'' \<mapsto> \<lparr>filesize = 2, start_block = 4\<rparr>],
       start_index = 0, strategy = FIRST_FIT, used_memory = 6\<rparr>"
  let ?s5 = "\<lparr>memory_map = [True, True, True, True, True, True, True, True, True, True],
       file_map = [''a'' \<mapsto> \<lparr>filesize = 2, start_block = 0\<rparr>, ''b'' \<mapsto> \<lparr>filesize = 1, start_block = 2\<rparr>, ''c'' \<mapsto> \<lparr>filesize = 1, start_block = 3\<rparr>, ''d'' \<mapsto> \<lparr>filesize = 2, start_block = 4\<rparr>, ''e'' \<mapsto> \<lparr>filesize = 4, start_block = 6\<rparr>],
       start_index = 0, strategy = FIRST_FIT, used_memory = 10\<rparr>"
  let ?s6 = "\<lparr>memory_map = [True, True, False, True, True, True, True, True, True, True],
       file_map = ([''a'' \<mapsto> \<lparr>filesize = 2, start_block = 0\<rparr>, ''b'' \<mapsto> \<lparr>filesize = 1, start_block = 2\<rparr>, ''c'' \<mapsto> \<lparr>filesize = 1, start_block = 3\<rparr>, ''d'' \<mapsto> \<lparr>filesize = 2, start_block = 4\<rparr>, ''e'' \<mapsto> \<lparr>filesize = 4, start_block = 6\<rparr>])(''b'' := None),
       start_index = 0, strategy = FIRST_FIT, used_memory = 9\<rparr>"
  let ?s7 = "\<lparr>memory_map = [True, True, False, True, False, False, True, True, True, True],
       file_map = ([''a'' \<mapsto> \<lparr>filesize = 2, start_block = 0\<rparr>, ''b'' \<mapsto> \<lparr>filesize = 1, start_block = 2\<rparr>, ''c'' \<mapsto> \<lparr>filesize = 1, start_block = 3\<rparr>, ''d'' \<mapsto> \<lparr>filesize = 2, start_block = 4\<rparr>, ''e'' \<mapsto> \<lparr>filesize = 4, start_block = 6\<rparr>])(''b'' := None, ''d'' := None),
       start_index = 0, strategy = FIRST_FIT, used_memory = 7\<rparr>"
  have h1: "cfs_create (new_fs 10 FIRST_FIT) ''a'' 2 = Some (Inr (Done, ?s1))"
    by (simp add: cfs_eval new_fs_def eval_nat_numeral)
  have h2: "cfs_create ?s1 ''b'' 1 = Some (Inr (Done, ?s2))"
    by (simp add: cfs_eval)
  have h3: "cfs_create ?s2 ''c'' 1 = Some (Inr (Done, ?s3))"
    by (simp add: cfs_eval)
  have h4: "cfs_create ?s3 ''d'' 2 = Some (Inr (Done, ?s4))"
    by (simp add: cfs_eval)
  have h5: "cfs_create ?s4 ''e'' 4 = Some (Inr (Done, ?s5))"
    by (simp add: cfs_eval)
  have h6: "cfs_delete_file ?s5 ''b'' = Inr (Done, ?s6)"
    by (simp add: cfs_eval)
  have h7: "cfs_delete_file ?s6 ''d'' = Inr (Done, ?s7)"
    by (simp add: cfs_eval)
  have h8: "cfs_create ?s7 ''f'' 2 = Some (Inr (OutOfSpace, ?s7))"
    by (simp add: cfs_eval)
  show ?thesis
    by (intro exI [of _ ?s1] exI [of _ ?s2] exI [of _ ?s3] exI [of _ ?s4] exI [of _ ?s5]
        exI [of _ ?s6] exI [of _ ?s7] conjI h1 h2 h3 h4 h5 h6 h7 h8) simp
qed

text \<open>
  C6. After a successful next-fit search that returns \<open>i\<close> the cursor is \<open>i + size\<close>.
  On the code the assignment is \<^verbatim>\<open>start_index = (j+i)%memory_size\<close> with
  \<open>j = i + size\<close>: with 10 blocks, two creates of 2 blocks put the second file at
  block 2 and leave the cursor at 6, not at 4.
\<close>

theorem next_fit_cursor_not_past_run:
  "\<exists>s1 s2. cfs_create (new_fs 10 NEXT_FIT) ''a'' 2 = Some (Inr (Done, s1))
      \<and> start_index s1 = 2
      \<and> cfs_create s1 ''b'' 2 = Some (Inr (Done, s2))
      \<and> file_map s2 ''b'' = Some \<lparr>filesize = 2, start_block = 2\<rparr>
      \<and> start_index s2 = 6"
proof -
  let ?s1 = "\<lparr>memory_map = [True, True, False, False, False, False, False, False, False, False],
              file_map = [''a'' \<mapsto> \<lparr>filesize = 2, start_block = 0\<rparr>],
              start_index = 2, strategy = NEXT_FIT, used_memory = 2\<rparr>"
  let ?s2 = "\<lparr>memory_map = [True, True, True, True, False, False, False, False, False, False],
              file_map = [''a'' \<mapsto> \<lparr>filesize = 2, start_block = 0\<rparr>,
                          ''b'' \<mapsto> \<lparr>filesize = 2, start_block = 2\<rparr>],
              start_index = 6, strategy = NEXT_FIT, used_memory = 4\<rparr>"
  have "cfs_create (new_fs 10 NEXT_FIT) ''a'' 2 = Some (Inr (Done, ?s1))"
    by (simp add: cfs_create_def new_fs_def get_index_def next_fit_def next_fit_loop.simps
        scan_bounded.simps set_loop.simps bs_test_def bs_set_def c_rem_def eval_nat_numeral)
  moreover have "cfs_create ?s1 ''b'' 2 = Some (Inr (Done, ?s2))"
    by (simp add: cfs_create_def get_index_def next_fit_def next_fit_loop.simps
        scan_bounded.simps set_loop.simps bs_test_def bs_set_def c_rem_def)
  ultimately show ?thesis
    by (intro exI [of _ ?s1] exI [of _ ?s2]) simp
qed

text \<open>
  C8. A read or write returns 1 exactly when it did not execute. On the code the
  write of the ModifiedContiguousFileSystem returns 0, not 1, when the file is not
  found (the same call on the ContiguousFileSystem returns 1).
\<close>

theorem mcfs_write_not_found_returns_zero:
  "mcfs_write (new_fs 4 FIRST_FIT) ''x'' 1 0 = Some (Inr (NotFound, new_fs 4 FIRST_FIT, 0))
   \<and> cfs_write (new_fs 4 FIRST_FIT) ''x'' 1 0 = Inr (NotFound, new_fs 4 FIRST_FIT, 1)"
  by (simp add: mcfs_write_def cfs_write_def new_fs_def)

text \<open>The not-found branch returns 0 in every state.\<close>

lemma mcfs_write_absent_file:
  "file_map s f = None \<Longrightarrow> mcfs_write s f sz offset = Some (Inr (NotFound, s, 0))"
  by (simp add: mcfs_write_def)

end
